theory Spec2Isabelle
  imports Main "HOL-Library.AList"
begin

section \<open>Maze.js: the object store\<close>

text \<open>
  Cells and doors are JavaScript objects compared by reference (\<open>===\<close>) and shared
  between the grid's arrays and the cells' direction maps, so the model keeps them in an
  explicit store: a reference is the allocation number of the object, the index of the
  object in the store's list. JavaScript has no dangling reference, so every reference
  that the program holds is below the length of its list.
  \<open>Math.floor(Math.random() * n)\<close> is an index below \<open>n\<close>; the random source is a
  sequence of naturals, each draw consuming one element and reducing it modulo \<open>n\<close>.
\<close>

type_synonym cref = nat
type_synonym dref = nat
type_synonym rand = "nat \<Rightarrow> nat"

datatype error = TypeError | PathNotFound

record Cell =
  row :: nat
  col :: nat
  doors :: "(string \<times> dref) list"

record Door =
  cell1 :: cref
  cell2 :: cref
  closed :: bool

record heap =
  cellH :: "Cell list"
  doorH :: "Door list"

definition ncells :: "heap \<Rightarrow> nat" where
  "ncells h = length (cellH h)"

definition ndoors :: "heap \<Rightarrow> nat" where
  "ndoors h = length (doorH h)"

definition cell_of :: "heap \<Rightarrow> cref \<Rightarrow> Cell" where
  "cell_of h c = cellH h ! c"

definition door_of :: "heap \<Rightarrow> dref \<Rightarrow> Door" where
  "door_of h d = doorH h ! d"

text \<open>\<open>this.doors\<close> of the generator is the field \<open>mdoors\<close>; a slot of the
  pre-sized array that was never assigned is \<open>None\<close>.\<close>

record MazeGenerator =
  rows :: nat
  cols :: nat
  algo :: string
  cells :: "cref list list"
  mdoors :: "dref option list"

definition random_index :: "nat \<Rightarrow> rand \<Rightarrow> nat \<times> rand" where
  "random_index n r = ((if n = 0 then 0 else r 0 mod n), (\<lambda>i. r (Suc i)))"

definition empty_heap :: heap where
  "empty_heap = \<lparr>cellH = [], doorH = []\<rparr>"

subsection \<open>Cell and Door\<close>

definition new_Cell :: "nat \<Rightarrow> nat \<Rightarrow> heap \<Rightarrow> cref \<times> heap" where
  "new_Cell x y h =
     (ncells h, h\<lparr>cellH := cellH h @ [\<lparr>row = x, col = y, doors = []\<rparr>]\<rparr>)"

definition new_Door :: "cref \<Rightarrow> cref \<Rightarrow> heap \<Rightarrow> dref \<times> heap" where
  "new_Door c1 c2 h =
     (let k = (row (cell_of h c1) < row (cell_of h c2)
               \<or> row (cell_of h c1) = row (cell_of h c2) \<and> col (cell_of h c1) < col (cell_of h c2))
      in (ndoors h,
          h\<lparr>doorH := doorH h @
                [\<lparr>cell1 = (if k then c1 else c2), cell2 = (if k then c2 else c1), closed = True\<rparr>]\<rparr>))"

text \<open>\<open>cell.doors[key] = door\<close>\<close>

definition set_door :: "cref \<Rightarrow> string \<Rightarrow> dref \<Rightarrow> heap \<Rightarrow> heap" where
  "set_door c key d h =
     h\<lparr>cellH := (cellH h)[c := (cell_of h c)\<lparr>doors := AList.update key d (doors (cell_of h c))\<rparr>]\<rparr>"

text \<open>\<open>door.closed = false\<close>\<close>

definition open_door :: "dref \<Rightarrow> heap \<Rightarrow> heap" where
  "open_door d h =
     h\<lparr>doorH := (doorH h)[d := (door_of h d)\<lparr>closed := False\<rparr>]\<rparr>"

definition direction :: "heap \<Rightarrow> dref \<Rightarrow> string" where
  "direction h d =
     (if row (cell_of h (cell1 (door_of h d))) = row (cell_of h (cell2 (door_of h d)))
      then ''|'' else ''-'')"

text \<open>The cell at the other side of a door, as both \<open>neighbors\<close> functions compute it.\<close>

definition other_side :: "heap \<Rightarrow> cref \<Rightarrow> dref \<Rightarrow> cref" where
  "other_side h c d = (if cell1 (door_of h d) = c then cell2 (door_of h d) else cell1 (door_of h d))"

text \<open>\<open>Cell.neighbors()\<close>: the dictionary from direction to the cell behind an open door.\<close>

definition neighbors :: "heap \<Rightarrow> cref \<Rightarrow> (string \<times> cref) list" where
  "neighbors h c =
     fold (\<lambda>(dir, door) nb. if closed (door_of h door) then nb
                             else AList.update dir (other_side h c door) nb)
          (doors (cell_of h c)) []"

definition canVisit :: "heap \<Rightarrow> cref \<Rightarrow> cref list" where
  "canVisit h c = map snd (neighbors h c)"

text \<open>The function \<open>_neighbors\<close>: the neighbouring cells, even behind closed doors.\<close>

definition all_neighbors :: "heap \<Rightarrow> cref \<Rightarrow> cref list" where
  "all_neighbors h c = map (other_side h c) (map snd (doors (cell_of h c)))"

subsection \<open>The constructor\<close>

text \<open>\<open>arr[k] = v\<close> on an array with holes; JavaScript extends the array when \<open>k\<close> is
  beyond its length.\<close>

definition array_set :: "'a option list \<Rightarrow> nat \<Rightarrow> 'a \<Rightarrow> 'a option list" where
  "array_set xs k v =
     (if k < length xs then xs[k := Some v]
      else xs @ replicate (k - length xs) None @ [Some v])"

text \<open>The first loop nest. Each row is pre-sized and filled from index 0 upwards, which
  is the list built by appending.\<close>

fun add_cell :: "nat \<Rightarrow> nat \<Rightarrow> cref list \<times> heap \<Rightarrow> cref list \<times> heap" where
  "add_cell x y (rw, h) = (case new_Cell x y h of (c, h') \<Rightarrow> (rw @ [c], h'))"

definition create_row :: "nat \<Rightarrow> nat \<Rightarrow> heap \<Rightarrow> cref list \<times> heap" where
  "create_row x cs h = fold (add_cell x) [0..<cs] ([], h)"

fun add_row :: "nat \<Rightarrow> nat \<Rightarrow> cref list list \<times> heap \<Rightarrow> cref list list \<times> heap" where
  "add_row cs x (cls, h) = (case create_row x cs h of (rw, h') \<Rightarrow> (cls @ [rw], h'))"

definition create_cells :: "nat \<Rightarrow> nat \<Rightarrow> heap \<Rightarrow> cref list list \<times> heap" where
  "create_cells rs cs h = fold (add_row cs) [0..<rs] ([], h)"

text \<open>The body of the second loop nest at \<open>(x, y)\<close>; the state is the doors array, the
  counter \<open>k\<close> and the store.\<close>

fun add_up_door ::
  "cref list list \<Rightarrow> nat \<Rightarrow> nat \<Rightarrow> dref option list \<times> nat \<times> heap \<Rightarrow> dref option list \<times> nat \<times> heap" where
  "add_up_door cls x y (ds, k, h) =
     (if x \<ge> 1 then
        (let cell1 = cls ! x ! y; cell2 = cls ! (x - 1) ! y in
         case new_Door cell1 cell2 h of (door, h1) \<Rightarrow>
           (array_set ds k door, Suc k,
            set_door cell2 ''down'' door (set_door cell1 ''up'' door h1)))
      else (ds, k, h))"

fun add_left_door ::
  "cref list list \<Rightarrow> nat \<Rightarrow> nat \<Rightarrow> dref option list \<times> nat \<times> heap \<Rightarrow> dref option list \<times> nat \<times> heap" where
  "add_left_door cls x y (ds, k, h) =
     (if y \<ge> 1 then
        (let cell1 = cls ! x ! y; cell2 = cls ! x ! (y - 1) in
         case new_Door cell1 cell2 h of (door, h1) \<Rightarrow>
           (array_set ds k door, Suc k,
            set_door cell2 ''right'' door (set_door cell1 ''left'' door h1)))
      else (ds, k, h))"

definition add_doors ::
  "cref list list \<Rightarrow> nat \<Rightarrow> nat \<Rightarrow> dref option list \<times> nat \<times> heap \<Rightarrow> dref option list \<times> nat \<times> heap" where
  "add_doors cls x y s = add_left_door cls x y (add_up_door cls x y s)"

definition doors_row ::
  "cref list list \<Rightarrow> nat \<Rightarrow> nat \<Rightarrow> dref option list \<times> nat \<times> heap \<Rightarrow> dref option list \<times> nat \<times> heap" where
  "doors_row cls cs x s = fold (add_doors cls x) [0..<cs] s"

text \<open>The second loop nest, on the cells array and the store that the first one left.\<close>

fun create_doors ::
  "nat \<Rightarrow> nat \<Rightarrow> cref list list \<times> heap \<Rightarrow> cref list list \<times> dref option list \<times> nat \<times> heap" where
  "create_doors rs cs (cls, h) =
     (cls, fold (doors_row cls cs) [0..<rs] (replicate (rs * (cs - 1) + cs * (rs - 1)) None, 0, h))"

fun make_maze ::
  "nat \<Rightarrow> nat \<Rightarrow> string \<Rightarrow> cref list list \<times> dref option list \<times> nat \<times> heap \<Rightarrow> MazeGenerator \<times> heap" where
  "make_maze rs cs al (cls, ds, k, h) =
     (\<lparr>rows = rs, cols = cs, algo = al, cells = cls, mdoors = ds\<rparr>, h)"

text \<open>Lines 92 to 124 of the constructor: the grid before \<open>randomizeMaze\<close> runs.\<close>

definition construct :: "nat \<Rightarrow> nat \<Rightarrow> string \<Rightarrow> heap \<Rightarrow> MazeGenerator \<times> heap" where
  "construct rs cs al h = make_maze rs cs al (create_doors rs cs (create_cells rs cs h))"

subsection \<open>The union-find structure\<close>

text \<open>
  \<open>UF.m\<close> is a JavaScript \<open>Map\<close>: an association list in insertion order, where
  \<open>set\<close> on a present key keeps its position and a new key goes to the end
  (\<open>AList.update\<close>). A node is any JavaScript value; \<open>None\<close> is \<open>undefined\<close>,
  which \<open>get\<close> returns for a missing key.
\<close>

type_synonym 'a UF = "('a option \<times> 'a option) list"

definition Map_get :: "'a UF \<Rightarrow> 'a option \<Rightarrow> 'a option" where
  "Map_get m k = (case map_of m k of Some v \<Rightarrow> v | None \<Rightarrow> None)"

definition Map_has :: "'a UF \<Rightarrow> 'a option \<Rightarrow> bool" where
  "Map_has m k = (case map_of m k of Some v \<Rightarrow> True | None \<Rightarrow> False)"

text \<open>The \<open>while\<close> loop of \<open>root\<close> (path halving); \<open>None\<close> is a loop that never ends.\<close>

partial_function (option) root_loop :: "'a UF \<Rightarrow> 'a option \<Rightarrow> ('a option \<times> 'a UF) option" where
  "root_loop m p =
     (if p \<noteq> Map_get m p then
        (let par = Map_get m p;
             ppar = Map_get m par
         in root_loop (AList.update p ppar m) ppar)
      else Some (p, m))"

declare root_loop.simps [code]

definition root :: "'a UF \<Rightarrow> 'a option \<Rightarrow> ('a option \<times> 'a UF) option" where
  "root m p = root_loop (if Map_has m p then m else AList.update p p m) p"

definition join :: "'a UF \<Rightarrow> 'a option \<Rightarrow> 'a option \<Rightarrow> 'a UF option" where
  "join m p q =
     (case root m p of None \<Rightarrow> None
      | Some (rp, m1) \<Rightarrow>
     (case root m1 q of None \<Rightarrow> None
      | Some (rq, m2) \<Rightarrow>
        if rp = rq then Some m2 else Some (AList.update rp rq m2)))"

definition joined :: "'a UF \<Rightarrow> 'a option \<Rightarrow> 'a option \<Rightarrow> (bool \<times> 'a UF) option" where
  "joined m p q =
     (case root m p of None \<Rightarrow> None
      | Some (rp, m1) \<Rightarrow>
     (case root m1 q of None \<Rightarrow> None
      | Some (rq, m2) \<Rightarrow> Some (rp = rq, m2)))"

text \<open>\<open>Map.forEach\<close> visits the entries in insertion order, reads each value when it
  reaches the entry and also visits entries added meanwhile: a loop over the position.\<close>

partial_function (option) rootsNbr_loop ::
  "'a UF \<Rightarrow> nat \<Rightarrow> 'a option set \<Rightarrow> (nat \<times> 'a UF) option" where
  "rootsNbr_loop m i s =
     (if i < length m then
        (case root m (snd (m ! i)) of None \<Rightarrow> None
         | Some (rt, m') \<Rightarrow> rootsNbr_loop m' (Suc i) (insert rt s))
      else Some (card s, m))"

declare rootsNbr_loop.simps [code]

definition rootsNbr :: "'a UF \<Rightarrow> (nat \<times> 'a UF) option" where
  "rootsNbr m = rootsNbr_loop m 0 {}"

subsection \<open>The generators\<close>

text \<open>\<open>Object.values(n.doors).find(d => d.cell1 === cell || d.cell2 === cell)\<close>\<close>

definition find_door :: "heap \<Rightarrow> cref \<Rightarrow> cref \<Rightarrow> dref option" where
  "find_door h n cell =
     List.find (\<lambda>d. cell1 (door_of h d) = cell \<or> cell2 (door_of h d) = cell)
               (map snd (doors (cell_of h n)))"

text \<open>The loop of \<open>createRandomMazeRec\<close>. The stack is the array, its top at the end.
  Assigning \<open>closed\<close> of an \<open>undefined\<close> door is a TypeError.\<close>

partial_function (option) rec_loop ::
  "cref \<Rightarrow> cref set \<Rightarrow> cref list \<Rightarrow> heap \<Rightarrow> rand \<Rightarrow> ((error + unit) \<times> heap \<times> rand) option" where
  "rec_loop cell v stack h r =
     (let u = filter (\<lambda>n. n \<notin> v) (all_neighbors h cell) in
      if u \<noteq> [] then
        (case random_index (length u) r of (i, r') \<Rightarrow>
           let n = u ! i in
           (case find_door h n cell of
              None \<Rightarrow> Some (Inl TypeError, h, r')
            | Some d \<Rightarrow> rec_loop n (insert n v) (stack @ [cell]) (open_door d h) r'))
      else if stack = [] then Some (Inr (), h, r)
      else rec_loop (last stack) v (butlast stack) h r)"

declare rec_loop.simps [code]

text \<open>\<open>maze.cells[i][j]\<close>; reading a property of \<open>undefined\<close> is a TypeError.\<close>

definition cell_at :: "MazeGenerator \<Rightarrow> nat \<Rightarrow> nat \<Rightarrow> error + cref" where
  "cell_at maze i j =
     (if i < length (cells maze) \<and> j < length (cells maze ! i)
      then Inr (cells maze ! i ! j) else Inl TypeError)"

definition createRandomMazeRec ::
  "MazeGenerator \<Rightarrow> heap \<Rightarrow> rand \<Rightarrow> ((error + unit) \<times> heap \<times> rand) option" where
  "createRandomMazeRec maze h r =
     (case random_index (rows maze) r of (i, r1) \<Rightarrow>
     (case random_index (cols maze) r1 of (j, r2) \<Rightarrow>
     (case cell_at maze i j of
        Inl e \<Rightarrow> Some (Inl e, h, r2)
      | Inr cell \<Rightarrow> rec_loop cell {} [] h r2)))"

definition pickWall :: "dref list \<Rightarrow> rand \<Rightarrow> dref \<times> dref list \<times> rand" where
  "pickWall walls r =
     (let last_ix = length walls - 1 in
      case random_index (last_ix + 1) r of (k, r') \<Rightarrow>
        let tmp = walls ! k;
            walls1 = walls[k := walls ! last_ix];
            walls2 = walls1[last_ix := tmp]
        in (last walls2, butlast walls2, r'))"

partial_function (option) prim_loop ::
  "dref list \<Rightarrow> cref set \<Rightarrow> heap \<Rightarrow> rand \<Rightarrow> ((error + unit) \<times> heap \<times> rand) option" where
  "prim_loop walls v h r =
     (if walls \<noteq> [] then
        (case pickWall walls r of (w, walls1, r1) \<Rightarrow>
           if cell1 (door_of h w) \<in> v \<and> cell2 (door_of h w) \<in> v then prim_loop walls1 v h r1
           else
             (let h1 = open_door w h;
                  unvisited = (if cell1 (door_of h1 w) \<in> v then cell2 (door_of h1 w)
                               else cell1 (door_of h1 w))
              in prim_loop (walls1 @ map snd (doors (cell_of h1 unvisited)))
                           (insert unvisited v) h1 r1))
      else Some (Inr (), h, r))"

declare prim_loop.simps [code]

definition createRandomMazePrim ::
  "MazeGenerator \<Rightarrow> heap \<Rightarrow> rand \<Rightarrow> ((error + unit) \<times> heap \<times> rand) option" where
  "createRandomMazePrim maze h r =
     (case random_index (rows maze) r of (i, r1) \<Rightarrow>
     (case random_index (cols maze) r1 of (j, r2) \<Rightarrow>
     (case cell_at maze i j of
        Inl e \<Rightarrow> Some (Inl e, h, r2)
      | Inr cell \<Rightarrow> prim_loop (map snd (doors (cell_of h cell))) {cell} h r2)))"

text \<open>The Fisher-Yates shuffle, in place on the array.\<close>

fun random_shuffle_loop :: "nat \<Rightarrow> 'a list \<Rightarrow> rand \<Rightarrow> 'a list \<times> rand" where
  "random_shuffle_loop n arr r =
     (if n > 1 then
        (case random_index n r of (k, r') \<Rightarrow>
           let tmp = arr ! (n - 1);
               arr1 = arr[n - 1 := arr ! k];
               arr2 = arr1[k := tmp]
           in random_shuffle_loop (n - 1) arr2 r')
      else (arr, r))"

definition random_shuffle :: "'a list \<Rightarrow> rand \<Rightarrow> 'a list \<times> rand" where
  "random_shuffle arr r = random_shuffle_loop (length arr) arr r"

text \<open>The \<open>for ... of\<close> loop of \<open>createRandomMazeKruskal\<close>; reading \<open>cell1\<close> of a hole
  of the array is a TypeError.\<close>

fun kruskal_loop ::
  "dref option list \<Rightarrow> cref UF \<Rightarrow> heap \<Rightarrow> ((error + unit) \<times> heap) option" where
  "kruskal_loop [] uf h = Some (Inr (), h)"
| "kruskal_loop (None # ds) uf h = Some (Inl TypeError, h)"
| "kruskal_loop (Some d # ds) uf h =
     (case joined uf (Some (cell1 (door_of h d))) (Some (cell2 (door_of h d))) of
        None \<Rightarrow> None
      | Some (b, uf1) \<Rightarrow>
          if \<not> b then
            (let h1 = open_door d h in
             case join uf1 (Some (cell1 (door_of h1 d))) (Some (cell2 (door_of h1 d))) of
               None \<Rightarrow> None
             | Some uf2 \<Rightarrow> kruskal_loop ds uf2 h1)
          else kruskal_loop ds uf1 h)"

definition createRandomMazeKruskal ::
  "MazeGenerator \<Rightarrow> heap \<Rightarrow> rand \<Rightarrow> ((error + unit) \<times> MazeGenerator \<times> heap \<times> rand) option" where
  "createRandomMazeKruskal maze h r =
     (case random_shuffle (mdoors maze) r of (ds, r1) \<Rightarrow>
        let maze1 = maze\<lparr>mdoors := ds\<rparr> in
        (case kruskal_loop (mdoors maze1) [] h of
           None \<Rightarrow> None
         | Some (res, h1) \<Rightarrow> Some (res, maze1, h1, r1)))"

definition randomizeMaze ::
  "MazeGenerator \<Rightarrow> heap \<Rightarrow> rand \<Rightarrow> ((error + unit) \<times> MazeGenerator \<times> heap \<times> rand) option" where
  "randomizeMaze maze h r =
     (if algo maze = ''prim'' then
        (case createRandomMazePrim maze h r of None \<Rightarrow> None
         | Some (res, h1, r1) \<Rightarrow> Some (res, maze, h1, r1))
      else if algo maze = ''kruskal'' then createRandomMazeKruskal maze h r
      else
        (case createRandomMazeRec maze h r of None \<Rightarrow> None
         | Some (res, h1, r1) \<Rightarrow> Some (res, maze, h1, r1)))"

text \<open>The constructor's argument: a number, an options object (an absent property is
  \<open>None\<close>) or nothing. \<open>||\<close> replaces the falsy values \<open>undefined\<close>, \<open>0\<close> and \<open>''\<close>.\<close>

datatype config = Number nat | Options "nat option" "nat option" "string option" | Undefined

definition config_rows :: "config \<Rightarrow> nat" where
  "config_rows c =
     (case c of Number n \<Rightarrow> (if n = 0 then 20 else n)
      | Options (Some n) _ _ \<Rightarrow> (if n = 0 then 20 else n)
      | _ \<Rightarrow> 20)"

definition config_cols :: "config \<Rightarrow> nat" where
  "config_cols c =
     (case c of Options _ (Some n) _ \<Rightarrow> (if n = 0 then config_rows c else n)
      | _ \<Rightarrow> config_rows c)"

definition config_algo :: "config \<Rightarrow> string" where
  "config_algo c =
     (case c of Options _ _ (Some a) \<Rightarrow> (if a = [] then ''recursive'' else a)
      | _ \<Rightarrow> ''recursive'')"

definition new_MazeGenerator ::
  "config \<Rightarrow> heap \<Rightarrow> rand \<Rightarrow> ((error + unit) \<times> MazeGenerator \<times> heap \<times> rand) option" where
  "new_MazeGenerator c h r =
     (case construct (config_rows c) (config_cols c) (config_algo c) h of
        (maze, h1) \<Rightarrow> randomizeMaze maze h1 r)"

subsection \<open>Grouping and solving\<close>

text \<open>\<open>reduce\<close> skips the holes of an array; \<open>acc[dir].push\<close> on a missing key is a
  TypeError. The object and the store are returned as the call leaves them.\<close>

definition group_step ::
  "heap \<Rightarrow> dref option \<Rightarrow> error + (string \<times> dref list) list \<Rightarrow> error + (string \<times> dref list) list" where
  "group_step h d acc =
     (case acc of Inl e \<Rightarrow> Inl e
      | Inr a \<Rightarrow>
     (case d of None \<Rightarrow> Inr a
      | Some door \<Rightarrow>
     (case map_of a (direction h door) of
        None \<Rightarrow> Inl TypeError
      | Some l \<Rightarrow> Inr (AList.update (direction h door) (l @ [door]) a))))"

definition groupDoors ::
  "MazeGenerator \<Rightarrow> heap \<Rightarrow> (error + (string \<times> dref list) list) \<times> MazeGenerator \<times> heap" where
  "groupDoors maze h =
     (fold (group_step h) (mdoors maze) (Inr [(''|'', []), (''-'', [])]), maze, h)"

text \<open>The loop of \<open>solve\<close>. \<open>current\<close> is \<open>None\<close> when it is \<open>undefined\<close>, which
  \<open>path[path.length - 1]\<close> gives on the empty path; calling \<open>canVisit\<close> on it is a
  TypeError.\<close>

partial_function (option) solve_loop ::
  "cref \<Rightarrow> cref option \<Rightarrow> cref list \<Rightarrow> cref set \<Rightarrow> heap \<Rightarrow> rand
     \<Rightarrow> ((error + cref list) \<times> heap \<times> rand) option" where
  "solve_loop endCell current path v h r =
     (if current \<noteq> Some endCell then
        (case current of
           None \<Rightarrow> Some (Inl TypeError, h, r)
         | Some c \<Rightarrow>
             let u = filter (\<lambda>n. n \<notin> v) (canVisit h c) in
             if u \<noteq> [] then
               (case random_index (length u) r of (i, r') \<Rightarrow>
                  let n = u ! i in
                  solve_loop endCell (Some n) (path @ [n]) (insert n v) h r')
             else if path = [] then Some (Inl PathNotFound, h, r)
             else
               (let path1 = butlast path in
                solve_loop endCell (if path1 = [] then None else Some (last path1)) path1 v h r))
      else Some (Inr path, h, r))"

declare solve_loop.simps [code]

definition solve ::
  "MazeGenerator \<Rightarrow> cref \<Rightarrow> cref \<Rightarrow> heap \<Rightarrow> rand
     \<Rightarrow> ((error + cref list) \<times> MazeGenerator \<times> heap \<times> rand) option" where
  "solve maze startCell endCell h r =
     (case solve_loop endCell (Some startCell) [startCell] {startCell} h r of
        None \<Rightarrow> None
      | Some (res, h1, r1) \<Rightarrow> Some (res, maze, h1, r1))"


subsection \<open>Concrete scenarios\<close>

text \<open>The random source that yields the listed values and zeros afterwards.\<close>

definition choices :: "nat list \<Rightarrow> rand" where
  "choices xs = (\<lambda>i. if i < length xs then xs ! i else 0)"

text \<open>The doors of the store that are open, in allocation order.\<close>

definition open_doors :: "heap \<Rightarrow> dref list" where
  "open_doors h = filter (\<lambda>d. \<not> closed (door_of h d)) [0..<ndoors h]"

text \<open>The 2 by 2 grid that Prim's algorithm generates in the empty store when every
  random choice is 0.\<close>

definition maze_prim_2x2 :: MazeGenerator where
  "maze_prim_2x2 =
     \<lparr>rows = 2, cols = 2, algo = ''prim'', cells = [[0, 1], [2, 3]],
      mdoors = [Some 0, Some 1, Some 2, Some 3]\<rparr>"

definition heap_prim_2x2 :: heap where
  "heap_prim_2x2 =
     \<lparr>cellH =
        [\<lparr>row = 0, col = 0, doors = [(''right'', 0), (''down'', 1)]\<rparr>,
         \<lparr>row = 0, col = 1, doors = [(''left'', 0), (''down'', 2)]\<rparr>,
         \<lparr>row = 1, col = 0, doors = [(''up'', 1), (''right'', 3)]\<rparr>,
         \<lparr>row = 1, col = 1, doors = [(''up'', 2), (''left'', 3)]\<rparr>],
      doorH =
        [\<lparr>cell1 = 0, cell2 = 1, closed = False\<rparr>,
         \<lparr>cell1 = 0, cell2 = 2, closed = False\<rparr>,
         \<lparr>cell1 = 1, cell2 = 3, closed = False\<rparr>,
         \<lparr>cell1 = 2, cell2 = 3, closed = True\<rparr>]\<rparr>"

subsection \<open>Properties of the union-find structure\<close>

text \<open>\<open>repn f x n r\<close>: following the parent map \<open>f\<close> from \<open>x\<close> reaches the root
  \<open>r\<close> after \<open>n\<close> steps. \<open>rep\<close> is the representative in the structure, \<open>roots\<close>
  the set that \<open>rootsNbr\<close> counts, and \<open>uf_reachable\<close> the structures that a sequence
  of operations builds from the empty one.\<close>

inductive repn :: "('k \<rightharpoonup> 'k) \<Rightarrow> 'k \<Rightarrow> nat \<Rightarrow> 'k \<Rightarrow> bool" where
  repn_root: "f x = Some x \<Longrightarrow> repn f x 0 x"
| repn_step: "f x = Some y \<Longrightarrow> y \<noteq> x \<Longrightarrow> repn f y n r \<Longrightarrow> repn f x (Suc n) r"

definition rep :: "'a UF \<Rightarrow> 'a option \<Rightarrow> 'a option \<Rightarrow> bool" where
  "rep m x r = (\<exists>n. repn (map_of m) x n r)"

definition uf_inv :: "'a UF \<Rightarrow> bool" where
  "uf_inv m = (distinct (map fst m) \<and> (\<forall>x\<in>fst ` set m. \<exists>r. rep m x r))"

definition roots :: "'a UF \<Rightarrow> 'a option set" where
  "roots m = {r. map_of m r = Some r}"

inductive uf_reachable :: "'a UF \<Rightarrow> bool" where
  reach_new: "uf_reachable []"
| reach_root: "uf_reachable m \<Longrightarrow> root m p = Some (r, m') \<Longrightarrow> uf_reachable m'"
| reach_join: "uf_reachable m \<Longrightarrow> join m p q = Some m' \<Longrightarrow> uf_reachable m'"
| reach_joined: "uf_reachable m \<Longrightarrow> joined m p q = Some (b, m') \<Longrightarrow> uf_reachable m'"
| reach_rootsNbr: "uf_reachable m \<Longrightarrow> rootsNbr m = Some (n, m') \<Longrightarrow> uf_reachable m'"

text \<open>Two structures that hold the same nodes in the same order and assign the same
  representatives.\<close>

definition uf_equiv :: "'a UF \<Rightarrow> 'a UF \<Rightarrow> bool" where
  "uf_equiv m m' = (map fst m' = map fst m \<and> (\<forall>x r. rep m' x r \<longleftrightarrow> rep m x r))"

subsection \<open>Properties of the store\<close>

text \<open>\<open>door_frame h h'\<close>: from \<open>h\<close> to \<open>h'\<close> the cells and the end points of every
  door are the same, and no door that is open in \<open>h\<close> is closed in \<open>h'\<close>.\<close>

definition door_frame :: "heap \<Rightarrow> heap \<Rightarrow> bool" where
  "door_frame h h' =
     (cellH h' = cellH h \<and> length (doorH h') = length (doorH h)
      \<and> (\<forall>d. cell1 (door_of h' d) = cell1 (door_of h d)
              \<and> cell2 (door_of h' d) = cell2 (door_of h d)
              \<and> (closed (door_of h' d) \<longrightarrow> closed (door_of h d))))"

subsection \<open>Properties of the constructed grid\<close>

text \<open>The door that a cell's direction map holds under a key.\<close>

definition reg :: "heap \<Rightarrow> cref \<Rightarrow> string \<Rightarrow> dref option" where
  "reg h c key = map_of (doors (cell_of h c)) key"

text \<open>What both door blocks of the constructor do with the two cells and the two keys.\<close>

fun link ::
  "cref \<Rightarrow> cref \<Rightarrow> string \<Rightarrow> string \<Rightarrow> dref option list \<times> nat \<times> heap \<Rightarrow> dref option list \<times> nat \<times> heap" where
  "link c1 c2 key1 key2 (ds, k, h) =
     (case new_Door c1 c2 h of (door, h1) \<Rightarrow>
        (array_set ds k door, Suc k, set_door c2 key2 door (set_door c1 key1 door h1)))"

text \<open>The door that \<open>new Door(c1, c2)\<close> makes.\<close>

definition made_door :: "heap \<Rightarrow> cref \<Rightarrow> cref \<Rightarrow> Door" where
  "made_door h c1 c2 =
     (if row (cell_of h c1) < row (cell_of h c2)
         \<or> row (cell_of h c1) = row (cell_of h c2) \<and> col (cell_of h c1) < col (cell_of h c2)
      then \<lparr>cell1 = c1, cell2 = c2, closed = True\<rparr>
      else \<lparr>cell1 = c2, cell2 = c1, closed = True\<rparr>)"

text \<open>
  The reference of the grid cell at position \<open>p\<close>, the cells of the grid being allocated
  from reference \<open>c0\<close> on in row-major order. A door block of the constructor is either
  the block of the door above (\<open>True\<close>) or the block of the door to the left
  (\<open>False\<close>); \<open>dkey1\<close> is the key under which it registers the door in the cell itself,
  \<open>dkey2\<close> the key in the other cell, \<open>prevp\<close> the position of the other cell, and
  \<open>guardp\<close> the test of the block.
\<close>

definition cref_at :: "nat \<Rightarrow> nat \<Rightarrow> nat \<times> nat \<Rightarrow> cref" where
  "cref_at c0 cs p = c0 + fst p * cs + snd p"

definition ingrid :: "nat \<Rightarrow> nat \<Rightarrow> nat \<times> nat \<Rightarrow> bool" where
  "ingrid rs cs p = (fst p < rs \<and> snd p < cs)"

definition dkey1 :: "bool \<Rightarrow> string" where
  "dkey1 b = (if b then ''up'' else ''left'')"

definition dkey2 :: "bool \<Rightarrow> string" where
  "dkey2 b = (if b then ''down'' else ''right'')"

definition prevp :: "bool \<Rightarrow> nat \<times> nat \<Rightarrow> nat \<times> nat" where
  "prevp b p = (if b then (fst p - 1, snd p) else (fst p, snd p - 1))"

definition guardp :: "bool \<Rightarrow> nat \<times> nat \<Rightarrow> bool" where
  "guardp b p = (if b then 1 \<le> fst p else 1 \<le> snd p)"

text \<open>
  The invariant of the second loop nest, on the store \<open>h0\<close> that the constructor
  started from and the set \<open>E\<close> of door blocks that have run: the cells of the grid and
  the older part of the store are in place, the doors array is filled up to \<open>k\<close>, every
  registration in a grid cell belongs to a block that has run and leads to a door with
  the right end points, and every door made so far is closed and registered in both of
  its cells.
\<close>

definition slot_ok ::
  "nat \<Rightarrow> nat \<Rightarrow> (bool \<times> nat \<times> nat) set \<Rightarrow> heap \<Rightarrow> nat \<times> nat \<Rightarrow> string \<Rightarrow> dref \<Rightarrow> bool" where
  "slot_ok c0 cs E h p key d =
     (\<exists>b. (key = dkey1 b \<and> (b, p) \<in> E
            \<and> cell1 (door_of h d) = cref_at c0 cs (prevp b p)
            \<and> cell2 (door_of h d) = cref_at c0 cs p)
        \<or> (key = dkey2 b
            \<and> (\<exists>q. (b, q) \<in> E \<and> prevp b q = p
                  \<and> cell1 (door_of h d) = cref_at c0 cs p
                  \<and> cell2 (door_of h d) = cref_at c0 cs q)))"

definition door_ok ::
  "nat \<Rightarrow> nat \<Rightarrow> (bool \<times> nat \<times> nat) set \<Rightarrow> heap \<Rightarrow> dref \<Rightarrow> bool" where
  "door_ok c0 cs E h d =
     (closed (door_of h d)
      \<and> (\<exists>b p. (b, p) \<in> E \<and> reg h (cref_at c0 cs p) (dkey1 b) = Some d
               \<and> reg h (cref_at c0 cs (prevp b p)) (dkey2 b) = Some d))"

definition ginv ::
  "heap \<Rightarrow> nat \<Rightarrow> nat \<Rightarrow> (bool \<times> nat \<times> nat) set \<Rightarrow> dref option list \<times> nat \<times> heap \<Rightarrow> bool" where
  "ginv h0 rs cs E s =
     (case s of (ds, k, h) \<Rightarrow>
        ncells h = ncells h0 + rs * cs
      \<and> take (ncells h0) (cellH h) = cellH h0
      \<and> (\<forall>p. ingrid rs cs p \<longrightarrow>
             row (cell_of h (cref_at (ncells h0) cs p)) = fst p
           \<and> col (cell_of h (cref_at (ncells h0) cs p)) = snd p)
      \<and> take (ndoors h0) (doorH h) = doorH h0
      \<and> ndoors h = ndoors h0 + k
      \<and> ds = map Some [ndoors h0..<ndoors h0 + k]
             @ replicate (rs * (cs - 1) + cs * (rs - 1) - k) None
      \<and> (\<forall>e\<in>E. guardp (fst e) (snd e) \<and> ingrid rs cs (snd e))
      \<and> (\<forall>p key d. ingrid rs cs p \<longrightarrow> reg h (cref_at (ncells h0) cs p) key = Some d \<longrightarrow>
             ndoors h0 \<le> d \<and> d < ndoors h0 + k \<and> slot_ok (ncells h0) cs E h p key d)
      \<and> (\<forall>d. ndoors h0 \<le> d \<longrightarrow> d < ndoors h0 + k \<longrightarrow> door_ok (ncells h0) cs E h d))"

text \<open>The door blocks that have run when the second loop nest reaches position
  \<open>(x, y)\<close>.\<close>

definition done_before :: "nat \<Rightarrow> nat \<Rightarrow> nat \<Rightarrow> (bool \<times> nat \<times> nat) set" where
  "done_before cs x y =
     {e. guardp (fst e) (snd e) \<and> snd (snd e) < cs
         \<and> (fst (snd e) < x \<or> fst (snd e) = x \<and> snd (snd e) < y)}"

text \<open>Two cells whose positions differ by exactly 1 in exactly one coordinate.\<close>

definition adjacent :: "Cell \<Rightarrow> Cell \<Rightarrow> bool" where
  "adjacent a b =
     (row a = row b \<and> (col a = col b + 1 \<or> col b = col a + 1)
      \<or> col a = col b \<and> (row a = row b + 1 \<or> row b = row a + 1))"

subsection \<open>The operations of the program on the store\<close>

text \<open>\<open>operation h h'\<close>: one call of the constructor, of a generator, of \<open>solve\<close> or of
  \<open>groupDoors\<close>, with any arguments, takes the store \<open>h\<close> to \<open>h'\<close>.\<close>

inductive operation :: "heap \<Rightarrow> heap \<Rightarrow> bool" where
  op_construct: "construct rs cs al h = (maze, h') \<Longrightarrow> operation h h'"
| op_new: "new_MazeGenerator c h r = Some (res, maze, h', r') \<Longrightarrow> operation h h'"
| op_randomize: "randomizeMaze maze h r = Some (res, maze', h', r') \<Longrightarrow> operation h h'"
| op_rec: "createRandomMazeRec maze h r = Some (res, h', r') \<Longrightarrow> operation h h'"
| op_prim: "createRandomMazePrim maze h r = Some (res, h', r') \<Longrightarrow> operation h h'"
| op_kruskal: "createRandomMazeKruskal maze h r = Some (res, maze', h', r') \<Longrightarrow> operation h h'"
| op_solve: "solve maze startCell endCell h r = Some (path, maze', h', r') \<Longrightarrow> operation h h'"
| op_group: "groupDoors maze h = (groups, maze', h') \<Longrightarrow> operation h h'"

text \<open>Every door of \<open>h\<close> is a door of \<open>h'\<close>, and is open there if it is open in \<open>h\<close>.\<close>

definition stays_open :: "heap \<Rightarrow> heap \<Rightarrow> bool" where
  "stays_open h h' =
     (\<forall>d. d < ndoors h \<longrightarrow> d < ndoors h' \<and> (\<not> closed (door_of h d) \<longrightarrow> \<not> closed (door_of h' d)))"

subsection \<open>Well-formed stores\<close>

text \<open>
  A well-formed store. The keys of every direction map are distinct (it is a JavaScript
  object), and every door that a cell holds exists and has the cell as one of its end points.
  The two end points of every door exist, are two cells, and both hold the door.
\<close>

definition wf_cell :: "heap \<Rightarrow> cref \<Rightarrow> bool" where
  "wf_cell h c =
     (distinct (map fst (doors (cell_of h c)))
      \<and> (\<forall>d\<in>set (map snd (doors (cell_of h c))).
            d < ndoors h \<and> (cell1 (door_of h d) = c \<or> cell2 (door_of h d) = c)))"

definition wf_door :: "heap \<Rightarrow> dref \<Rightarrow> bool" where
  "wf_door h d =
     (cell1 (door_of h d) < ncells h \<and> cell2 (door_of h d) < ncells h
      \<and> cell1 (door_of h d) \<noteq> cell2 (door_of h d)
      \<and> d \<in> set (map snd (doors (cell_of h (cell1 (door_of h d)))))
      \<and> d \<in> set (map snd (doors (cell_of h (cell2 (door_of h d))))))"

definition wf_heap :: "heap \<Rightarrow> bool" where
  "wf_heap h = ((\<forall>c\<in>set [0..<ncells h]. wf_cell h c) \<and> (\<forall>d\<in>set [0..<ndoors h]. wf_door h d))"

text \<open>A generator object whose arrays hold references into the store.\<close>

definition wf_maze :: "MazeGenerator \<Rightarrow> heap \<Rightarrow> bool" where
  "wf_maze maze h =
     (length (cells maze) = rows maze
      \<and> (\<forall>rw\<in>set (cells maze). length rw = cols maze \<and> (\<forall>c\<in>set rw. c < ncells h))
      \<and> (\<forall>d\<in>set (mdoors maze). case d of None \<Rightarrow> False | Some d' \<Rightarrow> d' < ndoors h))"

subsection \<open>Paths through open doors\<close>

text \<open>\<open>open_wall h a b\<close>: an open door of the store has the two cells \<open>a\<close> and \<open>b\<close> as its end
  points.\<close>

definition open_wall :: "heap \<Rightarrow> cref \<Rightarrow> cref \<Rightarrow> bool" where
  "open_wall h a b =
     (\<exists>d\<in>set [0..<ndoors h]. \<not> closed (door_of h d)
        \<and> (cell1 (door_of h d) = a \<and> cell2 (door_of h d) = b
           \<or> cell1 (door_of h d) = b \<and> cell2 (door_of h d) = a))"

text \<open>
  The invariant of the loop of \<open>solve\<close>, from start cell \<open>s\<close> towards end cell \<open>e\<close>: the path
  starts in \<open>s\<close>, does not repeat a cell, lies in the visited set and goes through open doors;
  the end cell is not visited before the path reaches it; and every visited cell that is no
  longer on the path has all the cells behind its open doors visited.
\<close>

definition dfs_inv :: "heap \<Rightarrow> cref \<Rightarrow> cref \<Rightarrow> cref list \<Rightarrow> cref set \<Rightarrow> bool" where
  "dfs_inv h s e path v =
     (path \<noteq> [] \<and> hd path = s \<and> distinct path \<and> set path \<subseteq> v
      \<and> successively (open_wall h) path
      \<and> (\<forall>c\<in>v. c < ncells h)
      \<and> (e \<in> v \<longrightarrow> last path = e)
      \<and> (\<forall>a\<in>v - set path. \<forall>b. open_wall h a b \<longrightarrow> b \<in> v))"

section \<open>The union-find structure: representatives and counting\<close>

lemma repn_det: "repn f x n r \<Longrightarrow> repn f x n' r' \<Longrightarrow> n = n' \<and> r = r'"
proof (induction arbitrary: n' r' rule: repn.induct)
  case (repn_root f x)
  from repn_root.prems repn_root.hyps show ?case by (cases rule: repn.cases) auto
next
  case (repn_step f x y n r)
  from repn_step.prems repn_step.hyps(1,2) obtain k where "n' = Suc k" "repn f y k r'"
    by (cases rule: repn.cases) auto
  with repn_step.IH show ?case by blast
qed

lemma repn_is_root: "repn f x n r \<Longrightarrow> f r = Some r"
  by (induction rule: repn.induct) auto

lemma repn_dom: "repn f x n r \<Longrightarrow> x \<in> dom f"
  by (cases rule: repn.cases) auto

lemma repn_parent:
  assumes "repn f x n r" "f x = Some y"
  shows "\<exists>k. repn f y k r"
  using assms by (cases rule: repn.cases) (auto intro: repn.repn_root)

lemma repn_halve:
  "repn f x n r \<Longrightarrow> f p = Some par \<Longrightarrow> par \<noteq> p \<Longrightarrow> f par = Some g \<Longrightarrow> repn f p np rp
     \<Longrightarrow> \<exists>n'\<le>n. repn (f(p \<mapsto> g)) x n' r"
proof (induction rule: repn.induct)
  case (repn_root f x)
  then have "x \<noteq> p" by auto
  with repn_root have "(f(p \<mapsto> g)) x = Some x" by simp
  then have "repn (f(p \<mapsto> g)) x 0 x" by (rule repn.repn_root)
  then show ?case by blast
next
  case (repn_step f x y n r)
  note p = repn_step.prems(1-3) and pr = repn_step.prems(4)
  from repn_step obtain n' where n': "n' \<le> n" "repn (f(p \<mapsto> g)) y n' r" by blast
  show ?case
  proof (cases "x = p")
    case False
    with repn_step.hyps(1) have "(f(p \<mapsto> g)) x = Some y" by simp
    from repn.repn_step[OF this repn_step.hyps(2) n'(2)] n'(1) show ?thesis
      by (meson Suc_le_mono)
  next
    case True
    with repn_step.hyps p have y: "y = par" by simp
    show ?thesis
    proof (cases "g = par")
      case True
      with p have "f(p \<mapsto> g) = f" by (auto simp: fun_upd_idem_iff)
      with repn.repn_step[OF repn_step.hyps] show ?thesis by auto
    next
      case False
      from n' y p have gp: "(f(p \<mapsto> g)) par = Some g" by simp
      from n'(2) y gp False obtain k where k: "n' = Suc k" "repn (f(p \<mapsto> g)) g k r"
        by (cases rule: repn.cases) auto
      have "g \<noteq> p"
      proof
        assume "g = p"
        from pr p obtain k1 where k1: "np = Suc k1" "repn f par k1 rp"
          by (cases rule: repn.cases) auto
        from k1(2) p False obtain k2 where k2: "k1 = Suc k2" "repn f g k2 rp"
          by (cases rule: repn.cases) auto
        from repn_det[OF pr k2(2)[unfolded \<open>g = p\<close>]] k1 k2 show False by simp
      qed
      with True have "(f(p \<mapsto> g)) x = Some g" "g \<noteq> x" by auto
      from repn.repn_step[OF this k(2)] k n' show ?thesis
        by (metis Suc_leD Suc_le_mono)
    qed
  qed
qed

lemma repn_parent_le:
  assumes "repn f x n r" "f x = Some y"
  shows "\<exists>k\<le>n. repn f y k r"
  using assms
proof (cases rule: repn.cases)
  case repn_root
  with assms have "repn f y 0 r" by (auto intro: repn.repn_root)
  then show ?thesis by blast
next
  case (repn_step y' k)
  with assms have "repn f y k r" "k \<le> n" by auto
  then show ?thesis by blast
qed

lemma repn_register:
  "repn f x n r \<Longrightarrow> p \<notin> dom f \<Longrightarrow> repn (f(p \<mapsto> p)) x n r"
proof (induction rule: repn.induct)
  case (repn_root f x)
  then have "(f(p \<mapsto> p)) x = Some x" by auto
  then show ?case by (rule repn.repn_root)
next
  case (repn_step f x y n r)
  from repn_step.hyps(1) repn_step.prems have "(f(p \<mapsto> p)) x = Some y" by auto
  moreover from repn_step.IH repn_step.prems have "repn (f(p \<mapsto> p)) y n r" by blast
  ultimately show ?case
    using repn_step.hyps(2) repn.repn_step[of "f(p \<mapsto> p)" x y n r] by blast
qed

lemma repn_link:
  "repn f x n r \<Longrightarrow> f r1 = Some r1 \<Longrightarrow> f r2 = Some r2 \<Longrightarrow> r1 \<noteq> r2
     \<Longrightarrow> \<exists>n'. repn (f(r1 \<mapsto> r2)) x n' (if r = r1 then r2 else r)"
proof (induction rule: repn.induct)
  case (repn_root f x)
  show ?case
  proof (cases "x = r1")
    case True
    from repn_root have "(f(r1 \<mapsto> r2)) r2 = Some r2" by simp
    then have "repn (f(r1 \<mapsto> r2)) r2 0 r2" by (rule repn.repn_root)
    moreover have "(f(r1 \<mapsto> r2)) r1 = Some r2" by simp
    ultimately have "repn (f(r1 \<mapsto> r2)) r1 (Suc 0) r2"
      using repn_root.prems(3) repn.repn_step[of "f(r1 \<mapsto> r2)" r1 r2 0 r2] by blast
    with True show ?thesis by (simp del: fun_upd_apply) blast
  next
    case False
    with repn_root have "(f(r1 \<mapsto> r2)) x = Some x" by simp
    then have "repn (f(r1 \<mapsto> r2)) x 0 x" by (rule repn.repn_root)
    with False show ?thesis by (simp del: fun_upd_apply) blast
  qed
next
  case (repn_step f x y n r)
  then have "x \<noteq> r1" by auto
  with repn_step.hyps have "(f(r1 \<mapsto> r2)) x = Some y" by simp
  moreover from repn_step obtain n' where
    "repn (f(r1 \<mapsto> r2)) y n' (if r = r1 then r2 else r)" by blast
  ultimately have "repn (f(r1 \<mapsto> r2)) x (Suc n') (if r = r1 then r2 else r)"
    using repn_step.hyps(2)
      repn.repn_step[of "f(r1 \<mapsto> r2)" x y n' "if r = r1 then r2 else r"] by blast
  then show ?case by blast
qed

lemma rep_det: "rep m x r \<Longrightarrow> rep m x r' \<Longrightarrow> r = r'"
proof -
  assume "rep m x r" "rep m x r'"
  then obtain n n' where "repn (map_of m) x n r" "repn (map_of m) x n' r'"
    unfolding rep_def by blast
  from repn_det[OF this] show ?thesis by simp
qed

lemma rep_key: "rep m x r \<Longrightarrow> x \<in> fst ` set m"
proof -
  assume "rep m x r"
  then obtain n where "repn (map_of m) x n r" unfolding rep_def by blast
  then have "x \<in> dom (map_of m)" by (rule repn_dom)
  then show ?thesis by (simp add: dom_map_of_conv_image_fst)
qed

lemma rep_root_iff: "rep m r r \<longleftrightarrow> map_of m r = Some r"
  unfolding rep_def using repn_is_root repn.repn_root by metis

lemma rep_is_root: "rep m x r \<Longrightarrow> map_of m r = Some r"
  unfolding rep_def using repn_is_root by metis

lemma Map_has_iff: "Map_has m k \<longleftrightarrow> k \<in> fst ` set m"
proof -
  have "Map_has m k \<longleftrightarrow> map_of m k \<noteq> None"
    by (simp add: Map_has_def split: option.splits)
  then show ?thesis by (simp add: map_of_eq_None_iff)
qed

lemma Map_get_Some: "map_of m k = Some v \<Longrightarrow> Map_get m k = v"
  by (simp add: Map_get_def)

lemma keys_update_present: "k \<in> fst ` set m \<Longrightarrow> map fst (AList.update k v m) = map fst m"
  by (simp add: update_keys)

lemma uf_equiv_refl: "uf_equiv m m"
  by (simp add: uf_equiv_def)

lemma uf_equiv_trans: "uf_equiv m m1 \<Longrightarrow> uf_equiv m1 m2 \<Longrightarrow> uf_equiv m m2"
  by (simp add: uf_equiv_def)

lemma uf_equiv_keys: "uf_equiv m m' \<Longrightarrow> fst ` set m' = fst ` set m"
  unfolding uf_equiv_def by (metis list.set_map)

lemma uf_equiv_length: "uf_equiv m m' \<Longrightarrow> length m' = length m"
  unfolding uf_equiv_def by (metis length_map)

lemma uf_inv_halve:
  assumes inv: "uf_inv m" and p: "map_of m p = Some par" "par \<noteq> p" "map_of m par = Some g"
  shows "uf_inv (AList.update p g m) \<and> uf_equiv m (AList.update p g m)"
proof -
  let ?m' = "AList.update p g m"
  have pk: "p \<in> fst ` set m" using p(1) by (metis map_of_eq_None_iff option.distinct(1))
  then have keys: "map fst ?m' = map fst m" by (rule keys_update_present)
  from pk inv obtain np rp where pr: "repn (map_of m) p np rp"
    unfolding uf_inv_def rep_def by blast
  have fwd: "rep ?m' x r" if "rep m x r" for x r
    using that repn_halve[OF _ p pr] unfolding rep_def by (fastforce simp: update_conv')
  have bwd: "rep m x r" if "rep ?m' x r" for x r
  proof -
    from that have "x \<in> fst ` set m" using rep_key keys by (metis list.set_map)
    with inv obtain r0 where "rep m x r0" unfolding uf_inv_def by blast
    with fwd that rep_det show ?thesis by metis
  qed
  have "distinct (map fst ?m')" using inv keys by (simp add: uf_inv_def)
  moreover have "\<forall>x\<in>fst ` set ?m'. \<exists>r. rep ?m' x r"
    using inv fwd keys unfolding uf_inv_def by (metis list.set_map)
  ultimately show ?thesis using keys fwd bwd unfolding uf_inv_def uf_equiv_def by blast
qed

lemma root_loop_correct:
  "repn (map_of m) p n r \<Longrightarrow> uf_inv m
     \<Longrightarrow> \<exists>m'. root_loop m p = Some (r, m') \<and> uf_inv m' \<and> uf_equiv m m'"
proof (induction n arbitrary: m p rule: less_induct)
  case (less n)
  from less.prems(1) show ?case
  proof (cases rule: repn.cases)
    case repn_root
    then have "Map_get m p = p" by (simp add: Map_get_Some)
    then have "root_loop m p = Some (p, m)" by (subst root_loop.simps) simp
    with repn_root less.prems show ?thesis by (auto simp: uf_equiv_refl)
  next
    case (repn_step par k)
    from repn_dom[OF repn_step(4)] obtain g where g: "map_of m par = Some g" by auto
    let ?m1 = "AList.update p g m"
    from uf_inv_halve[OF less.prems(2) repn_step(2,3) g]
    have inv1: "uf_inv ?m1" and eq1: "uf_equiv m ?m1" by auto
    from repn_parent_le[OF repn_step(4) g] obtain k2 where k2: "k2 \<le> k" "repn (map_of m) g k2 r"
      by blast
    from repn_halve[OF k2(2) repn_step(2,3) g less.prems(1)]
    obtain k3 where k3: "k3 \<le> k2" "repn (map_of ?m1) g k3 r" by (auto simp: update_conv')
    from k3 k2 repn_step(1) have "k3 < n" by simp
    from less.IH[OF this k3(2) inv1] obtain m' where
      m': "root_loop ?m1 g = Some (r, m')" "uf_inv m'" "uf_equiv ?m1 m'" by blast
    have "Map_get m p = par" "Map_get m par = g"
      using repn_step(2) g by (simp_all add: Map_get_Some)
    with repn_step(3) have "root_loop m p = root_loop ?m1 g"
      by (subst root_loop.simps) (simp add: Let_def)
    with m' eq1 show ?thesis using uf_equiv_trans by metis
  qed
qed

lemma uf_inv_register:
  assumes inv: "uf_inv m" and p: "p \<notin> fst ` set m"
  shows "uf_inv (AList.update p p m)"
    and "map fst (AList.update p p m) = map fst m @ [p]"
    and "rep (AList.update p p m) p p"
    and "\<And>x r. x \<in> fst ` set m \<Longrightarrow> rep (AList.update p p m) x r \<longleftrightarrow> rep m x r"
proof -
  let ?m' = "AList.update p p m"
  have pd: "p \<notin> dom (map_of m)" using p by (simp add: dom_map_of_conv_image_fst)
  show keys: "map fst ?m' = map fst m @ [p]" using p by (simp add: update_keys)
  have fwd: "rep ?m' x r" if "rep m x r" for x r
  proof -
    from that obtain n where "repn (map_of m) x n r" unfolding rep_def by blast
    from repn_register[OF this pd] show ?thesis unfolding rep_def by (auto simp: update_conv')
  qed
  show pp: "rep ?m' p p" by (simp add: rep_root_iff update_conv')
  show eq: "rep ?m' x r \<longleftrightarrow> rep m x r" if "x \<in> fst ` set m" for x r
  proof
    assume a: "rep ?m' x r"
    from that inv obtain r0 where r0: "rep m x r0" unfolding uf_inv_def by blast
    from rep_det[OF a fwd[OF r0]] r0 show "rep m x r" by simp
  qed (rule fwd)
  have "distinct (map fst ?m')" using inv p keys by (simp add: uf_inv_def)
  moreover have "\<exists>r. rep ?m' x r" if "x \<in> fst ` set ?m'" for x
  proof (cases "x = p")
    case True with pp show ?thesis by blast
  next
    case False
    with that keys have "x \<in> fst ` set m" by (metis Un_iff empty_iff insert_iff list.set(1) list.set(2) list.set_map set_append)
    with inv fwd show ?thesis unfolding uf_inv_def by blast
  qed
  ultimately show "uf_inv ?m'" unfolding uf_inv_def by blast
qed

text \<open>What \<open>root\<close> does on a structure that satisfies the invariant.\<close>

lemma root_spec:
  assumes inv: "uf_inv m"
  shows "\<exists>r m'. root m p = Some (r, m') \<and> uf_inv m' \<and> rep m' p r
           \<and> fst ` set m' = insert p (fst ` set m)
           \<and> (p \<in> fst ` set m \<longrightarrow> uf_equiv m m')
           \<and> (\<forall>x r. x \<in> fst ` set m \<longrightarrow> rep m' x r = rep m x r)"
proof (cases "p \<in> fst ` set m")
  case True
  with inv obtain r n where r: "repn (map_of m) p n r" unfolding uf_inv_def rep_def by blast
  from root_loop_correct[OF r inv] obtain m' where
    m': "root_loop m p = Some (r, m')" "uf_inv m'" "uf_equiv m m'" by blast
  from True have "root m p = root_loop m p" by (simp add: root_def Map_has_iff)
  moreover from r m'(3) have "rep m' p r" unfolding uf_equiv_def rep_def by blast
  moreover from uf_equiv_keys[OF m'(3)] True have "fst ` set m' = insert p (fst ` set m)" by auto
  ultimately show ?thesis using m' True unfolding uf_equiv_def by auto
next
  case False
  let ?m0 = "AList.update p p m"
  note reg = uf_inv_register[OF inv False]
  from reg(3) obtain n where n: "repn (map_of ?m0) p n p" unfolding rep_def by blast
  from root_loop_correct[OF n reg(1)] obtain m' where
    m': "root_loop ?m0 p = Some (p, m')" "uf_inv m'" "uf_equiv ?m0 m'" by blast
  from False have "root m p = root_loop ?m0 p" by (simp add: root_def Map_has_iff)
  moreover from reg(3) m'(3) have "rep m' p p" unfolding uf_equiv_def by blast
  moreover from uf_equiv_keys[OF m'(3)] reg(2) have "fst ` set m' = insert p (fst ` set m)"
    by (metis Un_insert_right list.set(1) list.set(2) list.set_map set_append sup_bot.right_neutral)
  moreover have "\<forall>x r. x \<in> fst ` set m \<longrightarrow> rep m' x r = rep m x r"
    using reg(4) m'(3) unfolding uf_equiv_def by blast
  ultimately show ?thesis using m' False by auto
qed

lemma uf_inv_link:
  assumes inv: "uf_inv m" and r1: "map_of m r1 = Some r1" and r2: "map_of m r2 = Some r2"
    and ne: "r1 \<noteq> r2"
  shows "uf_inv (AList.update r1 r2 m)"
    and "map fst (AList.update r1 r2 m) = map fst m"
    and "\<And>x r. rep m x r \<Longrightarrow> rep (AList.update r1 r2 m) x (if r = r1 then r2 else r)"
proof -
  let ?m' = "AList.update r1 r2 m"
  have k1: "r1 \<in> fst ` set m" using r1 by (metis map_of_eq_None_iff option.distinct(1))
  then show keys: "map fst ?m' = map fst m" by (rule keys_update_present)
  show fwd: "rep ?m' x (if r = r1 then r2 else r)" if "rep m x r" for x r
  proof -
    from that obtain n where "repn (map_of m) x n r" unfolding rep_def by blast
    from repn_link[OF this r1 r2 ne] show ?thesis unfolding rep_def by (simp add: update_conv')
  qed
  have "distinct (map fst ?m')" using inv keys by (simp add: uf_inv_def)
  moreover have "\<exists>r. rep ?m' x r" if "x \<in> fst ` set ?m'" for x
  proof -
    from that keys have "x \<in> fst ` set m" by (metis list.set_map)
    with inv obtain r where "rep m x r" unfolding uf_inv_def by blast
    from fwd[OF this] show ?thesis by blast
  qed
  ultimately show "uf_inv ?m'" unfolding uf_inv_def by blast
qed

lemma uf_equiv_roots: "uf_equiv m m' \<Longrightarrow> roots m' = roots m"
  unfolding roots_def uf_equiv_def using rep_root_iff by (metis (no_types, lifting))

lemma roots_link: "r1 \<noteq> r2 \<Longrightarrow> roots (AList.update r1 r2 m) = roots m - {r1}"
  unfolding roots_def by (auto simp: update_conv')

lemma finite_roots: "finite (roots m)"
proof -
  have "roots m \<subseteq> dom (map_of m)" unfolding roots_def by auto
  then show ?thesis using finite_dom_map_of finite_subset by blast
qed

lemma entry_rep:
  assumes inv: "uf_inv m" and i: "i < length m"
  shows "snd (m ! i) \<in> fst ` set m" and "rep m (snd (m ! i)) r \<longleftrightarrow> rep m (fst (m ! i)) r"
proof -
  obtain k v where kv: "m ! i = (k, v)" by (cases "m ! i")
  with i have mem: "(k, v) \<in> set m" by (metis nth_mem)
  with inv have mk: "map_of m k = Some v" by (simp add: uf_inv_def)
  from mem inv obtain r0 n where r0: "repn (map_of m) k n r0"
    unfolding uf_inv_def rep_def by force
  have "v \<in> dom (map_of m) \<and> (\<forall>r. rep m v r \<longleftrightarrow> rep m k r)"
  proof (cases "v = k")
    case True
    with mk show ?thesis by auto
  next
    case False
    from r0 mk False obtain n' where n': "repn (map_of m) v n' r0"
      by (cases rule: repn.cases) auto
    then have v0: "rep m v r0" unfolding rep_def by blast
    from r0 have k0: "rep m k r0" unfolding rep_def by blast
    have "rep m v r \<longleftrightarrow> rep m k r" for r
      using v0 k0 rep_det by metis
    with n' show ?thesis using repn_dom by fastforce
  qed
  with kv show "snd (m ! i) \<in> fst ` set m" and "rep m (snd (m ! i)) r \<longleftrightarrow> rep m (fst (m ! i)) r"
    by (simp_all add: dom_map_of_conv_image_fst)
qed

lemma rootsNbr_loop_spec:
  "uf_inv m \<Longrightarrow> i \<le> length m
     \<Longrightarrow> \<exists>m'. rootsNbr_loop m i s
              = Some (card (s \<union> {r. \<exists>j. i \<le> j \<and> j < length m \<and> rep m (fst (m ! j)) r}), m')
            \<and> uf_inv m' \<and> uf_equiv m m'"
proof (induction "length m - i" arbitrary: m i s)
  case 0
  then have "i = length m" by simp
  then have "rootsNbr_loop m i s = Some (card s, m)" by (subst rootsNbr_loop.simps) simp
  moreover from \<open>i = length m\<close>
  have "{r. \<exists>j. i \<le> j \<and> j < length m \<and> rep m (fst (m ! j)) r} = {}" by auto
  then have "card (s \<union> {r. \<exists>j. i \<le> j \<and> j < length m \<and> rep m (fst (m ! j)) r}) = card s"
    by (simp only: Un_empty_right)
  ultimately have "rootsNbr_loop m i s
      = Some (card (s \<union> {r. \<exists>j. i \<le> j \<and> j < length m \<and> rep m (fst (m ! j)) r}), m)"
    by simp
  with 0 uf_equiv_refl show ?case by blast
next
  case (Suc d)
  then have i: "i < length m" by simp
  let ?v = "snd (m ! i)"
  note e = entry_rep[OF Suc.prems(1) i]
  from root_spec[OF Suc.prems(1), of ?v] e(1) obtain r m1 where
    m1: "root m ?v = Some (r, m1)" "uf_inv m1" "rep m1 ?v r" "uf_equiv m m1" by blast
  from m1(4) have len: "length m1 = length m" by (rule uf_equiv_length)
  from m1(3,4) e(2) have rk: "rep m (fst (m ! i)) r" unfolding uf_equiv_def by blast
  from len i Suc.hyps(2) have d: "d = length m1 - Suc i" "Suc i \<le> length m1" by simp_all
  from Suc.hyps(1)[OF d(1) m1(2) d(2), of "insert r s"] obtain m' where
    m': "rootsNbr_loop m1 (Suc i) (insert r s)
           = Some (card (insert r s \<union> {r. \<exists>j. Suc i \<le> j \<and> j < length m1 \<and> rep m1 (fst (m1 ! j)) r}), m')"
        "uf_inv m'" "uf_equiv m1 m'" by blast
  have keys: "fst (m1 ! j) = fst (m ! j)" if "j < length m" for j
    using m1(4) that len unfolding uf_equiv_def by (metis nth_map)
  have "{r. \<exists>j. Suc i \<le> j \<and> j < length m1 \<and> rep m1 (fst (m1 ! j)) r}
        = {r. \<exists>j. Suc i \<le> j \<and> j < length m \<and> rep m (fst (m ! j)) r}"
    using keys len m1(4) unfolding uf_equiv_def by auto
  moreover have "insert r s \<union> {r. \<exists>j. Suc i \<le> j \<and> j < length m \<and> rep m (fst (m ! j)) r}
        = s \<union> {r. \<exists>j. i \<le> j \<and> j < length m \<and> rep m (fst (m ! j)) r}" (is "?L = ?R")
  proof
    show "?L \<subseteq> ?R" using rk i by (auto intro: Suc_leD)
    show "?R \<subseteq> ?L"
    proof
      fix x assume "x \<in> ?R"
      then consider "x \<in> s" | j where "i \<le> j" "j < length m" "rep m (fst (m ! j)) x" by blast
      then show "x \<in> ?L"
      proof cases
        case 1 then show ?thesis by simp
      next
        case 2
        show ?thesis
        proof (cases "j = i")
          case True
          with 2 rk rep_det have "x = r" by metis
          then show ?thesis by simp
        next
          case False
          with 2 have "Suc i \<le> j" by simp
          with 2 show ?thesis by blast
        qed
      qed
    qed
  qed
  ultimately have res: "rootsNbr_loop m1 (Suc i) (insert r s)
      = Some (card (s \<union> {r. \<exists>j. i \<le> j \<and> j < length m \<and> rep m (fst (m ! j)) r}), m')"
    using m'(1) by simp
  from i m1(1) have "rootsNbr_loop m i s = rootsNbr_loop m1 (Suc i) (insert r s)"
    by (subst rootsNbr_loop.simps) simp
  with res have "rootsNbr_loop m i s
      = Some (card (s \<union> {r. \<exists>j. i \<le> j \<and> j < length m \<and> rep m (fst (m ! j)) r}), m')"
    by (simp only:)
  moreover note m'(2) uf_equiv_trans[OF m1(4) m'(3)]
  ultimately show ?case by blast
qed

lemma rootsNbr_spec:
  assumes inv: "uf_inv m"
  shows "\<exists>m'. rootsNbr m = Some (card (roots m), m') \<and> uf_inv m' \<and> uf_equiv m m'"
proof -
  have "{r. \<exists>j. 0 \<le> j \<and> j < length m \<and> rep m (fst (m ! j)) r} = roots m" (is "?T = _")
  proof
    show "?T \<subseteq> roots m" unfolding roots_def using rep_is_root by blast
    show "roots m \<subseteq> ?T"
    proof
      fix r assume "r \<in> roots m"
      then have r: "map_of m r = Some r" by (simp add: roots_def)
      then have "r \<in> fst ` set m" by (metis map_of_eq_None_iff option.distinct(1))
      then obtain j where "j < length m" "fst (m ! j) = r"
        by (metis (no_types, lifting) imageE in_set_conv_nth)
      with r rep_root_iff[of m r] show "r \<in> ?T" by auto
    qed
  qed
  with rootsNbr_loop_spec[OF inv, of 0 "{}"] show ?thesis by (simp add: rootsNbr_def)
qed

text \<open>Two successive \<open>root\<close> calls, as \<open>join\<close> and \<open>joined\<close> make them.\<close>

lemma root_root_spec:
  assumes inv: "uf_inv m"
  shows "\<exists>ra m1 rb m2. root m a = Some (ra, m1) \<and> root m1 b = Some (rb, m2) \<and> uf_inv m2
           \<and> rep m2 a ra \<and> rep m2 b rb
           \<and> (a \<in> fst ` set m \<and> b \<in> fst ` set m \<longrightarrow> uf_equiv m m2)"
proof -
  from root_spec[OF inv, of a] obtain ra m1 where
    m1: "root m a = Some (ra, m1)" "uf_inv m1" "rep m1 a ra"
        "fst ` set m1 = insert a (fst ` set m)" "a \<in> fst ` set m \<longrightarrow> uf_equiv m m1"
    by blast
  from root_spec[OF m1(2), of b] obtain rb m2 where
    m2: "root m1 b = Some (rb, m2)" "uf_inv m2" "rep m2 b rb"
        "b \<in> fst ` set m1 \<longrightarrow> uf_equiv m1 m2"
        "\<forall>x r. x \<in> fst ` set m1 \<longrightarrow> rep m2 x r = rep m1 x r"
    by blast
  from m1(3,4) m2(5) have "rep m2 a ra" by blast
  moreover have "uf_equiv m m2" if "a \<in> fst ` set m" "b \<in> fst ` set m"
    using that m1(4,5) m2(4) uf_equiv_trans by blast
  ultimately show ?thesis using m1(1) m2(1,2,3) by blast
qed

lemma joined_spec:
  assumes inv: "uf_inv m"
  shows "\<exists>d m'. joined m a b = Some (d, m') \<and> uf_inv m'
           \<and> (\<forall>r. rep m' a r \<longrightarrow> rep m' b r \<longrightarrow> d)
           \<and> (a \<in> fst ` set m \<and> b \<in> fst ` set m
                \<longrightarrow> uf_equiv m m' \<and> (\<forall>ra rb. rep m a ra \<longrightarrow> rep m b rb \<longrightarrow> d = (ra = rb)))"
proof -
  from root_root_spec[OF inv, of a b] obtain ra m1 rb m2 where
    r: "root m a = Some (ra, m1)" "root m1 b = Some (rb, m2)" "uf_inv m2"
       "rep m2 a ra" "rep m2 b rb"
       "a \<in> fst ` set m \<and> b \<in> fst ` set m \<longrightarrow> uf_equiv m m2"
    by blast
  from r(1,2) have j: "joined m a b = Some (ra = rb, m2)" by (simp add: joined_def)
  have 1: "ra = rb" if "rep m2 a x" "rep m2 b x" for x
    using that r(4,5) rep_det by metis
  have 2: "(ra = rb) = (xa = xb)" if "uf_equiv m m2" "rep m a xa" "rep m b xb" for xa xb
  proof -
    from that have "rep m2 a xa" "rep m2 b xb" unfolding uf_equiv_def by auto
    with r(4,5) have "xa = ra" "xb = rb" using rep_det by metis+
    then show ?thesis by simp
  qed
  from j r(3,6) 1 2 show ?thesis by blast
qed

lemma join_spec:
  assumes inv: "uf_inv m"
  shows "\<exists>m'. join m a b = Some m' \<and> uf_inv m'
           \<and> (\<exists>r. rep m' a r \<and> rep m' b r)
           \<and> (a \<in> fst ` set m \<and> b \<in> fst ` set m
                \<longrightarrow> (\<forall>ra rb. rep m a ra \<longrightarrow> rep m b rb
                      \<longrightarrow> roots m' = (if ra = rb then roots m else roots m - {ra}) \<and> ra \<in> roots m))"
proof -
  from root_root_spec[OF inv, of a b] obtain ra m1 rb m2 where
    r: "root m a = Some (ra, m1)" "root m1 b = Some (rb, m2)" "uf_inv m2"
       "rep m2 a ra" "rep m2 b rb"
       "a \<in> fst ` set m \<and> b \<in> fst ` set m \<longrightarrow> uf_equiv m m2"
    by blast
  let ?m' = "if ra = rb then m2 else AList.update ra rb m2"
  from r(1,2) have j: "join m a b = Some ?m'" by (simp add: join_def)
  have roots2: "map_of m2 ra = Some ra" "map_of m2 rb = Some rb"
    using r(4,5) rep_is_root by blast+
  have inv': "uf_inv ?m'" using r(3) uf_inv_link(1)[OF r(3) roots2] by simp
  have same: "\<exists>x. rep ?m' a x \<and> rep ?m' b x"
  proof (cases "ra = rb")
    case True with r(4,5) show ?thesis by auto
  next
    case False
    from uf_inv_link(3)[OF r(3) roots2 False r(4)] uf_inv_link(3)[OF r(3) roots2 False r(5)] False
    show ?thesis by auto
  qed
  have cnt: "roots ?m' = (if xa = xb then roots m else roots m - {xa}) \<and> xa \<in> roots m"
    if "a \<in> fst ` set m" "b \<in> fst ` set m" "rep m a xa" "rep m b xb" for xa xb
  proof -
    from that r(6) have eq: "uf_equiv m m2" by blast
    with that have "rep m2 a xa" "rep m2 b xb" unfolding uf_equiv_def by auto
    with r(4,5) have x: "xa = ra" "xb = rb" using rep_det by metis+
    from uf_equiv_roots[OF eq] have rr: "roots m2 = roots m" .
    from roots2(1) rr have "ra \<in> roots m" by (auto simp: roots_def)
    with x rr roots_link[of ra rb m2] show ?thesis by auto
  qed
  from j inv' same cnt show ?thesis by blast
qed

lemma uf_reachable_inv: "uf_reachable m \<Longrightarrow> uf_inv m"
proof (induction rule: uf_reachable.induct)
  case reach_new
  show ?case by (simp add: uf_inv_def)
next
  case (reach_root m p r m')
  with root_spec[of m p] show ?case by auto
next
  case (reach_join m p q m')
  with join_spec[of m p q] show ?case by auto
next
  case (reach_joined m p q b m')
  with joined_spec[of m p q] show ?case by auto
next
  case (reach_rootsNbr m n m')
  with rootsNbr_spec[of m] show ?case by auto
qed

section \<open>What the generators and the solver leave unchanged\<close>

lemma door_frame_refl: "door_frame h h"
  by (simp add: door_frame_def)

lemma door_frame_trans: "door_frame h h1 \<Longrightarrow> door_frame h1 h2 \<Longrightarrow> door_frame h h2"
  by (simp add: door_frame_def)

lemma door_of_open_door:
  "door_of (open_door d h) d' =
     (if d' = d \<and> d < length (doorH h) then (door_of h d)\<lparr>closed := False\<rparr> else door_of h d')"
  by (auto simp: door_of_def open_door_def nth_list_update list_update_beyond)

lemma door_frame_open_door: "door_frame h (open_door d h)"
  by (simp add: door_frame_def door_of_open_door) (simp add: open_door_def)

lemma door_frame_step: "door_frame (open_door d h) h' \<Longrightarrow> door_frame h h'"
  using door_frame_trans[OF door_frame_open_door] .

lemma rec_loop_frame_aux:
  "rec_loop cell v stack h r = Some y \<Longrightarrow> door_frame h (fst (snd y))"
proof (induction rule: rec_loop.raw_induct[rotated 1, consumes 1])
  case (1 rec_loop cell v stack h r y)
  note IH = 1(1)
  from 1(2) show ?case
    by (auto simp: Let_def door_frame_refl split: if_splits prod.splits option.splits
             dest!: IH intro: door_frame_step)
qed

lemma rec_loop_frame:
  "rec_loop cell v stack h r = Some (res, h', r') \<Longrightarrow> door_frame h h'"
  using rec_loop_frame_aux by fastforce

lemma prim_loop_frame_aux:
  "prim_loop walls v h r = Some y \<Longrightarrow> door_frame h (fst (snd y))"
proof (induction rule: prim_loop.raw_induct[rotated 1, consumes 1])
  case (1 prim_loop walls v h r y)
  note IH = 1(1)
  from 1(2) show ?case
    by (auto simp: Let_def door_frame_refl split: if_splits prod.splits
             dest!: IH intro: door_frame_step)
qed

lemma prim_loop_frame:
  "prim_loop walls v h r = Some (res, h', r') \<Longrightarrow> door_frame h h'"
  using prim_loop_frame_aux by fastforce

lemma solve_loop_frame_aux:
  "solve_loop endCell current path v h r = Some y \<Longrightarrow> fst (snd y) = h"
proof (induction rule: solve_loop.raw_induct[rotated 1, consumes 1])
  case (1 solve_loop endCell current path v h r y)
  note IH = 1(1)
  from 1(2) show ?case
    by (auto simp: Let_def split: if_splits prod.splits option.splits dest!: IH)
qed

lemma solve_loop_frame:
  "solve_loop endCell current path v h r = Some (res, h', r') \<Longrightarrow> h' = h"
  using solve_loop_frame_aux by fastforce

lemma kruskal_loop_frame:
  "kruskal_loop ds uf h = Some (res, h') \<Longrightarrow> door_frame h h'"
proof (induction ds arbitrary: uf h)
  case Nil
  then show ?case by (simp add: door_frame_refl)
next
  case (Cons x ds)
  note IH = Cons.IH
  show ?case
  proof (cases x)
    case None
    with Cons.prems show ?thesis by (simp add: door_frame_refl)
  next
    case (Some d)
    with Cons.prems show ?thesis
      by (auto simp: Let_def split: option.splits if_splits dest!: IH intro: door_frame_step)
  qed
qed

lemma randomizeMaze_frame:
  "randomizeMaze maze h r = Some (res, maze', h', r') \<Longrightarrow> door_frame h h'"
  by (auto simp: randomizeMaze_def createRandomMazePrim_def createRandomMazeRec_def
        createRandomMazeKruskal_def Let_def door_frame_refl
      split: if_splits option.splits prod.splits sum.splits
      dest: prim_loop_frame rec_loop_frame kruskal_loop_frame)

lemma prim_2x2_generated:
  "map_option (\<lambda>(res, maze, h, r). (res, maze, h))
     (new_MazeGenerator (Options (Some 2) (Some 2) (Some ''prim'')) empty_heap (choices []))
   = Some (Inr (), maze_prim_2x2, heap_prim_2x2)"
  by code_simp

section \<open>The constructor: the grid and its doors\<close>

lemma fold_upt_Suc: "fold f [0..<Suc n] s = f n (fold f [0..<n] s)"
  by simp

lemma create_row_eq:
  "create_row x cs h =
     (map (\<lambda>y. ncells h + y) [0..<cs],
      h\<lparr>cellH := cellH h @ map (\<lambda>y. \<lparr>row = x, col = y, doors = []\<rparr>) [0..<cs]\<rparr>)"
  unfolding create_row_def
  by (induction cs) (simp_all add: new_Cell_def ncells_def)

lemma concat_grid_length:
  "length (concat (map (\<lambda>x. map (g x) [0..<cs]) [0..<rs])) = rs * cs"
  by (induction rs) simp_all

lemma create_cells_eq:
  "create_cells rs cs h =
     (map (\<lambda>x. map (\<lambda>y. ncells h + x * cs + y) [0..<cs]) [0..<rs],
      h\<lparr>cellH := cellH h
          @ concat (map (\<lambda>x. map (\<lambda>y. \<lparr>row = x, col = y, doors = []\<rparr>) [0..<cs]) [0..<rs])\<rparr>)"
  unfolding create_cells_def
  by (induction rs) (simp_all add: create_row_eq ncells_def concat_grid_length)

lemma concat_grid_nth:
  "x < rs \<Longrightarrow> y < cs \<Longrightarrow> concat (map (\<lambda>x. map (g x) [0..<cs]) [0..<rs]) ! (x * cs + y) = g x y"
proof (induction rs)
  case 0
  then show ?case by simp
next
  case (Suc n)
  show ?case
  proof (cases "x < n")
    case True
    then have "x * cs + y < n * cs"
      using Suc.prems(2) by (metis add.commute add_less_cancel_right less_le_trans mult_Suc_right mult.commute mult_le_mono1 Suc_leI)
    with Suc True show ?thesis by (simp add: nth_append concat_grid_length)
  next
    case False
    with Suc.prems have "x = n" by simp
    with Suc.prems show ?thesis by (simp add: nth_append concat_grid_length)
  qed
qed

lemma add_up_door_link:
  "add_up_door cls x y s
     = (if x \<ge> 1 then link (cls ! x ! y) (cls ! (x - 1) ! y) ''up'' ''down'' s else s)"
  by (cases s) (simp add: Let_def link.simps)

lemma add_left_door_link:
  "add_left_door cls x y s
     = (if y \<ge> 1 then link (cls ! x ! y) (cls ! x ! (y - 1)) ''left'' ''right'' s else s)"
  by (cases s) (simp add: Let_def link.simps)

lemma cell_of_set_door:
  "cell_of (set_door c key d h) c' =
     (if c' = c \<and> c < ncells h
      then (cell_of h c)\<lparr>doors := AList.update key d (doors (cell_of h c))\<rparr>
      else cell_of h c')"
  by (auto simp: cell_of_def set_door_def ncells_def nth_list_update list_update_beyond)

lemma doorH_set_door [simp]: "doorH (set_door c key d h) = doorH h"
  by (simp add: set_door_def)

lemma ncells_set_door [simp]: "ncells (set_door c key d h) = ncells h"
  by (simp add: set_door_def ncells_def)

lemma door_of_set_door [simp]: "door_of (set_door c key d h) d' = door_of h d'"
  by (simp add: door_of_def)

lemma ndoors_set_door [simp]: "ndoors (set_door c key d h) = ndoors h"
  by (simp add: ndoors_def)

lemma reg_set_door:
  "reg (set_door c key d h) c' key' =
     (if c' = c \<and> c < ncells h \<and> key' = key then Some d else reg h c' key')"
  by (auto simp: reg_def cell_of_set_door update_conv')

lemma new_Door_eq:
  "new_Door c1 c2 h = (ndoors h, h\<lparr>doorH := doorH h @ [made_door h c1 c2]\<rparr>)"
  by (simp add: new_Door_def made_door_def Let_def)

lemma link_eq:
  "link c1 c2 key1 key2 (ds, k, h) =
     (array_set ds k (ndoors h), Suc k,
      set_door c2 key2 (ndoors h) (set_door c1 key1 (ndoors h)
        (h\<lparr>doorH := doorH h @ [made_door h c1 c2]\<rparr>)))"
  by (simp add: new_Door_eq link.simps)

declare link.simps [simp del]

lemma cell_of_doorH_update [simp]: "cell_of (h\<lparr>doorH := ds\<rparr>) c = cell_of h c"
  by (simp add: cell_of_def)

lemma ncells_doorH_update [simp]: "ncells (h\<lparr>doorH := ds\<rparr>) = ncells h"
  by (simp add: ncells_def)

lemma reg_doorH_update [simp]: "reg (h\<lparr>doorH := ds\<rparr>) c key = reg h c key"
  by (simp add: reg_def)

text \<open>The effect of one door block on a state \<open>(ds, k, h)\<close>.\<close>

lemma link_effect:
  assumes "link c1 c2 key1 key2 (ds, k, h) = (ds', k', h')"
  shows "ds' = array_set ds k (ndoors h)" and "k' = Suc k"
    and "doorH h' = doorH h @ [made_door h c1 c2]"
    and "ncells h' = ncells h"
    and "\<And>c. row (cell_of h' c) = row (cell_of h c)"
    and "\<And>c. col (cell_of h' c) = col (cell_of h c)"
    and "\<And>c. c \<noteq> c1 \<Longrightarrow> c \<noteq> c2 \<Longrightarrow> cell_of h' c = cell_of h c"
    and "\<And>c key. reg h' c key =
           (if c = c2 \<and> c2 < ncells h \<and> key = key2 then Some (ndoors h)
            else if c = c1 \<and> c1 < ncells h \<and> key = key1 then Some (ndoors h)
            else reg h c key)"
  using assms
  by (auto simp: link_eq cell_of_set_door reg_set_door)

lemma array_set_fill:
  "array_set (map Some [d0..<d0 + k] @ replicate (n - k) None) k (d0 + k)
     = map Some [d0..<d0 + Suc k] @ replicate (n - Suc k) None"
proof (cases "k < n")
  case True
  then obtain m where m: "n - k = Suc m" by (metis Suc_diff_Suc)
  then have "n - Suc k = m" by simp
  with m show ?thesis
    by (simp add: array_set_def list_update_append replicate_Suc[symmetric] del: replicate_Suc)
       (simp add: replicate_Suc)
next
  case False
  then show ?thesis by (simp add: array_set_def)
qed

lemma dkey_simps [simp]:
  "dkey1 b = dkey1 b' \<longleftrightarrow> b = b'" "dkey2 b = dkey2 b' \<longleftrightarrow> b = b'"
  "dkey1 b \<noteq> dkey2 b'" "dkey2 b \<noteq> dkey1 b'"
  by (auto simp: dkey1_def dkey2_def)

lemma cref_at_inj:
  "ingrid rs cs p \<Longrightarrow> ingrid rs cs q \<Longrightarrow> cref_at c0 cs p = cref_at c0 cs q \<longleftrightarrow> p = q"
proof -
  assume a: "ingrid rs cs p" "ingrid rs cs q"
  show ?thesis
  proof
    assume "cref_at c0 cs p = cref_at c0 cs q"
    then have e: "fst p * cs + snd p = fst q * cs + snd q" by (simp add: cref_at_def)
    from a have "(fst p * cs + snd p) div cs = fst p" "(fst q * cs + snd q) div cs = fst q"
      "(fst p * cs + snd p) mod cs = snd p" "(fst q * cs + snd q) mod cs = snd q"
      by (simp_all add: ingrid_def)
    with e show "p = q" by (metis prod.expand)
  qed simp
qed

lemma cref_at_less: "ingrid rs cs p \<Longrightarrow> cref_at c0 cs p < c0 + rs * cs"
proof -
  assume "ingrid rs cs p"
  then have "fst p < rs" "snd p < cs" by (simp_all add: ingrid_def)
  then have "fst p * cs + snd p < Suc (fst p) * cs" by simp
  also have "\<dots> \<le> rs * cs" using \<open>fst p < rs\<close> by (metis Suc_leI mult_le_mono1)
  finally show ?thesis by (simp add: cref_at_def)
qed

lemma cref_at_ge: "c0 \<le> cref_at c0 cs p"
  by (simp add: cref_at_def)

lemma prevp_ingrid: "ingrid rs cs p \<Longrightarrow> ingrid rs cs (prevp b p)"
  by (auto simp: ingrid_def prevp_def)

lemma prevp_neq: "guardp b p \<Longrightarrow> prevp b p \<noteq> p"
  by (cases p) (auto simp: prevp_def guardp_def)

lemma prevp_inj: "guardp b p \<Longrightarrow> guardp b q \<Longrightarrow> prevp b p = prevp b q \<longleftrightarrow> p = q"
  by (cases p; cases q) (auto simp: prevp_def guardp_def)

lemma door_of_append:
  "door_of (h\<lparr>doorH := doorH h @ [nd]\<rparr>) d = (if d = ndoors h then nd else if d < ndoors h then door_of h d else door_of (h\<lparr>doorH := doorH h @ [nd]\<rparr>) d)"
  by (auto simp: door_of_def ndoors_def nth_append)

lemma slot_okI1:
  "key = dkey1 b \<Longrightarrow> (b, p) \<in> E \<Longrightarrow> cell1 (door_of h d) = cref_at c0 cs (prevp b p)
     \<Longrightarrow> cell2 (door_of h d) = cref_at c0 cs p \<Longrightarrow> slot_ok c0 cs E h p key d"
  unfolding slot_ok_def by blast

lemma slot_okI2:
  "key = dkey2 b \<Longrightarrow> (b, q) \<in> E \<Longrightarrow> prevp b q = p \<Longrightarrow> cell1 (door_of h d) = cref_at c0 cs p
     \<Longrightarrow> cell2 (door_of h d) = cref_at c0 cs q \<Longrightarrow> slot_ok c0 cs E h p key d"
  unfolding slot_ok_def by blast

lemma slot_ok_mono:
  "slot_ok c0 cs E h p key d \<Longrightarrow> E \<subseteq> E' \<Longrightarrow> door_of h' d = door_of h d
     \<Longrightarrow> slot_ok c0 cs E' h' p key d"
  unfolding slot_ok_def by (simp only:) blast

lemma door_okI:
  "closed (door_of h d) \<Longrightarrow> (b, p) \<in> E \<Longrightarrow> reg h (cref_at c0 cs p) (dkey1 b) = Some d
     \<Longrightarrow> reg h (cref_at c0 cs (prevp b p)) (dkey2 b) = Some d \<Longrightarrow> door_ok c0 cs E h d"
  unfolding door_ok_def by blast

lemma ginv_link:
  assumes inv: "ginv h0 rs cs E (ds, k, h)"
    and p: "ingrid rs cs p" "guardp b p" and new: "(b, p) \<notin> E"
  shows "ginv h0 rs cs (insert (b, p) E)
           (link (cref_at (ncells h0) cs p) (cref_at (ncells h0) cs (prevp b p))
              (dkey1 b) (dkey2 b) (ds, k, h))"
proof -
  let ?c0 = "ncells h0" and ?d0 = "ndoors h0"
  let ?c1 = "cref_at ?c0 cs p" and ?c2 = "cref_at ?c0 cs (prevp b p)"
  let ?E = "insert (b, p) E"
  obtain ds' k' h' where L: "link ?c1 ?c2 (dkey1 b) (dkey2 b) (ds, k, h) = (ds', k', h')"
    by (cases "link ?c1 ?c2 (dkey1 b) (dkey2 b) (ds, k, h)") auto
  note eff = link_effect[OF L]
  from inv have i1: "ncells h = ?c0 + rs * cs"
    and i2: "take ?c0 (cellH h) = cellH h0"
    and i3: "\<And>q. ingrid rs cs q \<Longrightarrow> row (cell_of h (cref_at ?c0 cs q)) = fst q
                  \<and> col (cell_of h (cref_at ?c0 cs q)) = snd q"
    and i4: "take ?d0 (doorH h) = doorH h0"
    and i5: "ndoors h = ?d0 + k"
    and i6: "ds = map Some [?d0..<?d0 + k] @ replicate (rs * (cs - 1) + cs * (rs - 1) - k) None"
    and i7: "\<And>e. e \<in> E \<Longrightarrow> guardp (fst e) (snd e) \<and> ingrid rs cs (snd e)"
    and i8: "\<And>q key d. ingrid rs cs q \<Longrightarrow> reg h (cref_at ?c0 cs q) key = Some d \<Longrightarrow>
               ?d0 \<le> d \<and> d < ?d0 + k \<and> slot_ok ?c0 cs E h q key d"
    and i9: "\<And>d. ?d0 \<le> d \<Longrightarrow> d < ?d0 + k \<Longrightarrow> door_ok ?c0 cs E h d"
    unfolding ginv_def by auto
  have pg: "ingrid rs cs (prevp b p)" using p(1) by (rule prevp_ingrid)
  have c12: "?c1 \<noteq> ?c2"
    using cref_at_inj[OF p(1) pg] prevp_neq[OF p(2)] by metis
  have c1n: "?c1 < ncells h" and c2n: "?c2 < ncells h"
    using cref_at_less[OF p(1)] cref_at_less[OF pg] i1 by simp_all
  have md: "made_door h ?c1 ?c2 = \<lparr>cell1 = ?c2, cell2 = ?c1, closed = True\<rparr>"
    using i3[OF p(1)] i3[OF pg] p(2)
    by (cases p) (auto simp: made_door_def prevp_def guardp_def)
  have dH: "doorH h' = doorH h @ [\<lparr>cell1 = ?c2, cell2 = ?c1, closed = True\<rparr>]"
    using eff(3) md by simp
  have nd': "ndoors h' = ?d0 + Suc k" using dH i5 by (simp add: ndoors_def)
  have dnew: "door_of h' (?d0 + k) = \<lparr>cell1 = ?c2, cell2 = ?c1, closed = True\<rparr>"
    using dH i5 by (simp add: door_of_def ndoors_def nth_append)
  have dold: "door_of h' d = door_of h d" if "d < ?d0 + k" for d
    using dH i5 that by (simp add: door_of_def ndoors_def nth_append)
  have regs: "reg h' c key =
           (if c = ?c2 \<and> key = dkey2 b then Some (?d0 + k)
            else if c = ?c1 \<and> key = dkey1 b then Some (?d0 + k)
            else reg h c key)" for c key
    using eff(8)[of c key] c1n c2n i5 by simp
  have g1: "ncells h' = ?c0 + rs * cs" using eff(4) i1 by simp
  have g2: "take ?c0 (cellH h') = cellH h0"
  proof -
    have "cellH h' ! c = cellH h ! c" if "c < ?c0" for c
    proof -
      from that cref_at_ge[of ?c0 cs p] cref_at_ge[of ?c0 cs "prevp b p"]
      have "c \<noteq> ?c1" "c \<noteq> ?c2" by simp_all
      from eff(7)[OF this] show ?thesis by (simp add: cell_of_def)
    qed
    moreover have "length (cellH h') = length (cellH h)" using eff(4) by (simp add: ncells_def)
    moreover have "?c0 \<le> length (cellH h)" using i1 by (simp add: ncells_def)
    ultimately have "take ?c0 (cellH h') = take ?c0 (cellH h)"
      by (auto intro!: nth_equalityI)
    with i2 show ?thesis by simp
  qed
  have g3: "row (cell_of h' (cref_at ?c0 cs q)) = fst q \<and> col (cell_of h' (cref_at ?c0 cs q)) = snd q"
    if "ingrid rs cs q" for q
    using i3[OF that] eff(5,6) by simp
  have g4: "take ?d0 (doorH h') = doorH h0" using dH i4 i5 by (simp add: ndoors_def)
  have g6: "ds' = map Some [?d0..<?d0 + Suc k]
                 @ replicate (rs * (cs - 1) + cs * (rs - 1) - Suc k) None"
    using eff(1) i5 i6 array_set_fill[of ?d0 k] by simp
  have g7: "guardp (fst e) (snd e) \<and> ingrid rs cs (snd e)" if "e \<in> ?E" for e
  proof (cases "e = (b, p)")
    case True with p show ?thesis by simp
  next
    case False with that i7[of e] show ?thesis by simp
  qed
  have g8: "?d0 \<le> d \<and> d < ?d0 + Suc k \<and> slot_ok ?c0 cs ?E h' q key d"
    if q: "ingrid rs cs q" and r: "reg h' (cref_at ?c0 cs q) key = Some d" for q key d
  proof -
    consider (a) "cref_at ?c0 cs q = ?c2" "key = dkey2 b"
      | (b) "\<not> (cref_at ?c0 cs q = ?c2 \<and> key = dkey2 b)" "cref_at ?c0 cs q = ?c1" "key = dkey1 b"
      | (c) "\<not> (cref_at ?c0 cs q = ?c2 \<and> key = dkey2 b)"
            "\<not> (cref_at ?c0 cs q = ?c1 \<and> key = dkey1 b)"
      by blast
    then show ?thesis
    proof cases
      case a
      with r regs have d: "d = ?d0 + k" by simp
      from a(1) cref_at_inj[OF q pg] have "q = prevp b p" by simp
      with dnew a(2) have "slot_ok ?c0 cs ?E h' q key (?d0 + k)"
        by (intro slot_okI2[of key b p]) simp_all
      with d show ?thesis by simp
    next
      case b
      with r regs have d: "d = ?d0 + k" by simp
      from b(2) cref_at_inj[OF q p(1)] have "q = p" by simp
      with dnew b(3) have "slot_ok ?c0 cs ?E h' q key (?d0 + k)"
        by (intro slot_okI1[of key b]) simp_all
      with d show ?thesis by simp
    next
      case c
      with r regs have "reg h (cref_at ?c0 cs q) key = Some d" by auto
      from i8[OF q this] have o: "?d0 \<le> d" "d < ?d0 + k" "slot_ok ?c0 cs E h q key d"
        by simp_all
      have "slot_ok ?c0 cs ?E h' q key d"
        by (rule slot_ok_mono[OF o(3) subset_insertI dold[OF o(2)]])
      with o show ?thesis by simp
    qed
  qed
  have g9: "door_ok ?c0 cs ?E h' d" if d: "?d0 \<le> d" "d < ?d0 + Suc k" for d
  proof (cases "d = ?d0 + k")
    case True
    have "reg h' ?c1 (dkey1 b) = Some (?d0 + k)" using regs c12 by simp
    moreover have "reg h' ?c2 (dkey2 b) = Some (?d0 + k)" using regs by simp
    ultimately show ?thesis using True dnew
      by (intro door_okI[of h' d b p]) simp_all
  next
    case False
    with d have dk: "d < ?d0 + k" by simp
    from i9[OF d(1) dk] obtain b' q where
      o: "closed (door_of h d)" "(b', q) \<in> E"
         "reg h (cref_at ?c0 cs q) (dkey1 b') = Some d"
         "reg h (cref_at ?c0 cs (prevp b' q)) (dkey2 b') = Some d"
      unfolding door_ok_def by blast
    from i7[OF o(2)] have qg: "guardp b' q" "ingrid rs cs q" by simp_all
    have ne: "(b', q) \<noteq> (b, p)"
    proof
      assume "(b', q) = (b, p)"
      with o(2) have "(b, p) \<in> E" by simp
      with new show False by simp
    qed
    have "\<not> (cref_at ?c0 cs q = ?c1 \<and> dkey1 b' = dkey1 b)"
    proof
      assume "cref_at ?c0 cs q = ?c1 \<and> dkey1 b' = dkey1 b"
      then have c: "cref_at ?c0 cs q = ?c1" and "dkey1 b' = dkey1 b" by blast+
      then have bb: "b' = b" by (simp only: dkey_simps)
      from c cref_at_inj[OF qg(2) p(1), of ?c0] have "q = p" by blast
      with bb ne show False by (simp only:) simp
    qed
    moreover have "\<not> (cref_at ?c0 cs q = ?c2 \<and> dkey1 b' = dkey2 b)" by simp
    ultimately have r1: "reg h' (cref_at ?c0 cs q) (dkey1 b') = Some d"
      using o(3) by (simp only: regs if_False)
    have "\<not> (cref_at ?c0 cs (prevp b' q) = ?c2 \<and> dkey2 b' = dkey2 b)"
    proof
      assume "cref_at ?c0 cs (prevp b' q) = ?c2 \<and> dkey2 b' = dkey2 b"
      then have c: "cref_at ?c0 cs (prevp b' q) = ?c2" and "dkey2 b' = dkey2 b" by blast+
      then have bb: "b' = b" by (simp only: dkey_simps)
      from c cref_at_inj[OF prevp_ingrid[OF qg(2)] pg, of ?c0 b']
      have "prevp b' q = prevp b p" by blast
      with bb have "prevp b q = prevp b p" by (simp only:)
      moreover from qg(1) bb have "guardp b q" by (simp only:)
      ultimately have "q = p" using p(2) prevp_inj[of b q p] by blast
      with bb ne show False by (simp only:) simp
    qed
    moreover have "\<not> (cref_at ?c0 cs (prevp b' q) = ?c1 \<and> dkey2 b' = dkey1 b)" by simp
    ultimately have r2: "reg h' (cref_at ?c0 cs (prevp b' q)) (dkey2 b') = Some d"
      using o(4) by (simp only: regs if_False)
    from o(1,2) r1 r2 dold[OF dk] show ?thesis
      by (intro door_okI[of h' d b' q]) simp_all
  qed
  from g1 g2 g3 g4 nd' g6 g7 g8 g9 show ?thesis
    unfolding L eff(2) ginv_def by (simp only: prod.case) blast
qed

lemma grid_cells_nth:
  "x < rs \<Longrightarrow> y < cs \<Longrightarrow>
     map (\<lambda>x. map (\<lambda>y. c0 + x * cs + y) [0..<cs]) [0..<rs] ! x ! y = cref_at c0 cs (x, y)"
  by (simp add: cref_at_def)

lemma done_before_step:
  "y < cs \<Longrightarrow>
     done_before cs x (Suc y)
       = (if 1 \<le> y then insert (False, x, y) else id)
           ((if 1 \<le> x then insert (True, x, y) else id) (done_before cs x y))"
  unfolding done_before_def
  by (auto simp: guardp_def less_Suc_eq)

lemma done_before_row: "done_before cs x cs = done_before cs (Suc x) 0"
  unfolding done_before_def by (auto simp: less_Suc_eq)

lemma not_done_yet: "(b, x, y) \<notin> done_before cs x y"
  by (simp add: done_before_def)

lemma ginv_add_doors:
  assumes inv: "ginv h0 rs cs (done_before cs x y) s" and x: "x < rs" and y: "y < cs"
    and cls: "cls = map (\<lambda>x. map (\<lambda>y. ncells h0 + x * cs + y) [0..<cs]) [0..<rs]"
  shows "ginv h0 rs cs (done_before cs x (Suc y)) (add_doors cls x y s)"
proof -
  obtain ds k h where s: "s = (ds, k, h)" by (cases s) auto
  let ?p = "(x, y)"
  let ?E0 = "done_before cs x y"
  let ?E1 = "(if 1 \<le> x then insert (True, x, y) else id) ?E0"
  have pg: "ingrid rs cs ?p" using x y by (simp add: ingrid_def)
  have c1: "cls ! x ! y = cref_at (ncells h0) cs ?p"
    using x y cls by (simp add: cref_at_def)
  have s1: "ginv h0 rs cs ?E1 (add_up_door cls x y s)"
  proof (cases "1 \<le> x")
    case True
    then have g: "guardp True ?p" by (simp add: guardp_def)
    from True x have "x - 1 < rs" by simp
    with y cls have c2: "cls ! (x - 1) ! y = cref_at (ncells h0) cs (prevp True ?p)"
      by (simp add: cref_at_def prevp_def)
    from ginv_link[OF inv[unfolded s] pg g not_done_yet] True c1 c2 s
    show ?thesis by (simp add: add_up_door_link dkey1_def dkey2_def)
  next
    case False
    with inv show ?thesis by (simp add: add_up_door_link)
  qed
  obtain ds1 k1 h1 where s': "add_up_door cls x y s = (ds1, k1, h1)"
    by (cases "add_up_door cls x y s") auto
  have s2: "ginv h0 rs cs (done_before cs x (Suc y)) (add_left_door cls x y (ds1, k1, h1))"
  proof (cases "1 \<le> y")
    case True
    then have g: "guardp False ?p" by (simp add: guardp_def)
    from True y have "y - 1 < cs" by simp
    with x cls have c2: "cls ! x ! (y - 1) = cref_at (ncells h0) cs (prevp False ?p)"
      by (simp add: cref_at_def prevp_def)
    have nd: "(False, ?p) \<notin> ?E1" using not_done_yet[of False x y cs] by auto
    from ginv_link[OF s1[unfolded s'] pg g nd] True c1 c2
    show ?thesis by (simp add: add_left_door_link dkey1_def dkey2_def done_before_step[OF y])
  next
    case False
    with s1 s' show ?thesis by (simp add: add_left_door_link done_before_step[OF y])
  qed
  with s' show ?thesis by (simp add: add_doors_def)
qed

lemma ginv_doors_row_aux:
  assumes x: "x < rs"
    and cls: "cls = map (\<lambda>x. map (\<lambda>y. ncells h0 + x * cs + y) [0..<cs]) [0..<rs]"
  shows "ginv h0 rs cs (done_before cs x 0) s \<Longrightarrow> y \<le> cs
           \<Longrightarrow> ginv h0 rs cs (done_before cs x y) (fold (add_doors cls x) [0..<y] s)"
proof (induction y)
  case 0
  then show ?case by simp
next
  case (Suc y)
  then have "ginv h0 rs cs (done_before cs x y) (fold (add_doors cls x) [0..<y] s)" by simp
  from ginv_add_doors[OF this x _ cls] Suc.prems show ?case by simp
qed

lemma ginv_doors_row:
  assumes x: "x < rs"
    and cls: "cls = map (\<lambda>x. map (\<lambda>y. ncells h0 + x * cs + y) [0..<cs]) [0..<rs]"
    and inv: "ginv h0 rs cs (done_before cs x 0) s"
  shows "ginv h0 rs cs (done_before cs (Suc x) 0) (doors_row cls cs x s)"
  using ginv_doors_row_aux[OF x cls inv, of cs]
  by (simp add: doors_row_def done_before_row)

lemma ginv_rows:
  assumes cls: "cls = map (\<lambda>x. map (\<lambda>y. ncells h0 + x * cs + y) [0..<cs]) [0..<rs]"
    and inv: "ginv h0 rs cs (done_before cs 0 0) s"
  shows "x \<le> rs \<Longrightarrow> ginv h0 rs cs (done_before cs x 0) (fold (doors_row cls cs) [0..<x] s)"
proof (induction x)
  case 0
  with inv show ?case by simp
next
  case (Suc x)
  then have "ginv h0 rs cs (done_before cs x 0) (fold (doors_row cls cs) [0..<x] s)" by simp
  from ginv_doors_row[OF _ cls this] Suc.prems show ?case by simp
qed

lemma ginv_initial:
  "ginv h0 rs cs (done_before cs 0 0)
     (replicate (rs * (cs - 1) + cs * (rs - 1)) None, 0,
      h0\<lparr>cellH := cellH h0
          @ concat (map (\<lambda>x. map (\<lambda>y. \<lparr>row = x, col = y, doors = []\<rparr>) [0..<cs]) [0..<rs])\<rparr>)"
proof -
  let ?g = "concat (map (\<lambda>x. map (\<lambda>y. \<lparr>row = x, col = y, doors = []\<rparr>) [0..<cs]) [0..<rs])"
  let ?h1 = "h0\<lparr>cellH := cellH h0 @ ?g\<rparr>"
  have e: "done_before cs 0 0 = {}" by (simp add: done_before_def)
  have c: "cell_of ?h1 (cref_at (ncells h0) cs p) = \<lparr>row = fst p, col = snd p, doors = []\<rparr>"
    if "ingrid rs cs p" for p
  proof -
    from that have "fst p < rs" "snd p < cs" by (simp_all add: ingrid_def)
    from concat_grid_nth[OF this, of "\<lambda>x y. \<lparr>row = x, col = y, doors = []\<rparr>"]
    show ?thesis by (simp add: cell_of_def cref_at_def ncells_def nth_append add.assoc)
  qed
  show ?thesis
    unfolding ginv_def e
    by (simp add: c[unfolded ncells_def] reg_def ncells_def ndoors_def concat_grid_length)
qed

lemma k_add_doors:
  "fst (snd (add_doors cls x y s))
     = fst (snd s) + (if 1 \<le> x then 1 else 0) + (if 1 \<le> y then 1 else 0)"
  by (cases s) (simp add: add_doors_def Let_def new_Door_def)

lemma k_doors_row_aux:
  "fst (snd (fold (add_doors cls x) [0..<y] s))
     = fst (snd s) + (if 1 \<le> x then y else 0) + (y - 1)"
  by (induction y) (auto simp: k_add_doors)

lemma k_doors_row:
  "fst (snd (doors_row cls cs x s)) = fst (snd s) + (if 1 \<le> x then cs else 0) + (cs - 1)"
  by (simp add: doors_row_def k_doors_row_aux)

lemma k_rows:
  "fst (snd (fold (doors_row cls cs) [0..<x] s)) = fst (snd s) + x * (cs - 1) + cs * (x - 1)"
proof -
  define m where "m = cs - 1"
  have r: "fst (snd (doors_row cls cs x s)) = fst (snd s) + (if 1 \<le> x then cs else 0) + m"
    for x s
    by (simp add: k_doors_row m_def)
  have "fst (snd (fold (doors_row cls cs) [0..<x] s)) = fst (snd s) + x * m + cs * (x - 1)"
  proof (induction x)
    case 0
    then show ?case by simp
  next
    case (Suc x)
    then show ?case by (cases x) (simp_all add: r)
  qed
  then show ?thesis by (simp add: m_def)
qed

text \<open>The state in which the constructor leaves the store and the generator object.\<close>

lemma construct_ginv:
  assumes "construct rs cs al h0 = (maze, h)"
  shows "ginv h0 rs cs (done_before cs rs 0) (mdoors maze, rs * (cs - 1) + cs * (rs - 1), h)"
    and "cells maze = map (\<lambda>x. map (\<lambda>y. ncells h0 + x * cs + y) [0..<cs]) [0..<rs]"
    and "rows maze = rs" and "cols maze = cs" and "algo maze = al"
proof -
  let ?cls = "map (\<lambda>x. map (\<lambda>y. ncells h0 + x * cs + y) [0..<cs]) [0..<rs]"
  let ?h1 = "h0\<lparr>cellH := cellH h0
          @ concat (map (\<lambda>x. map (\<lambda>y. \<lparr>row = x, col = y, doors = []\<rparr>) [0..<cs]) [0..<rs])\<rparr>"
  let ?init = "(replicate (rs * (cs - 1) + cs * (rs - 1)) None, 0::nat, ?h1)"
  let ?fin = "fold (doors_row ?cls cs) [0..<rs] ?init"
  obtain ds k h' where s: "?fin = (ds, k, h')" by (cases ?fin) auto
  from k_rows[where cls = ?cls and cs = cs and x = rs and s = ?init] s
  have k: "k = rs * (cs - 1) + cs * (rs - 1)" by simp
  from ginv_rows[OF refl ginv_initial, where x = rs and rs = rs and cs = cs and ?h0.0 = h0]
  have g: "ginv h0 rs cs (done_before cs rs 0) ?fin" by simp
  from assms s have m: "maze = \<lparr>rows = rs, cols = cs, algo = al, cells = ?cls, mdoors = ds\<rparr>"
    and h: "h = h'"
    by (simp_all add: construct_def create_cells_eq)
  from g s k m h show "ginv h0 rs cs (done_before cs rs 0)
      (mdoors maze, rs * (cs - 1) + cs * (rs - 1), h)" by simp
  from m show "cells maze = ?cls" "rows maze = rs" "cols maze = cs" "algo maze = al"
    by simp_all
qed

lemma ginv_door:
  assumes inv: "ginv h0 rs cs E (ds, k, h)" and d: "ndoors h0 \<le> d" "d < ndoors h0 + k"
  shows "\<exists>b p. guardp b p \<and> ingrid rs cs p \<and> closed (door_of h d)
           \<and> cell1 (door_of h d) = cref_at (ncells h0) cs (prevp b p)
           \<and> cell2 (door_of h d) = cref_at (ncells h0) cs p
           \<and> reg h (cref_at (ncells h0) cs p) (dkey1 b) = Some d
           \<and> reg h (cref_at (ncells h0) cs (prevp b p)) (dkey2 b) = Some d"
proof -
  from inv have i7: "\<And>e. e \<in> E \<Longrightarrow> guardp (fst e) (snd e) \<and> ingrid rs cs (snd e)"
    and i8: "\<And>q key d. ingrid rs cs q \<Longrightarrow> reg h (cref_at (ncells h0) cs q) key = Some d \<Longrightarrow>
               ndoors h0 \<le> d \<and> d < ndoors h0 + k \<and> slot_ok (ncells h0) cs E h q key d"
    and i9: "\<And>d. ndoors h0 \<le> d \<Longrightarrow> d < ndoors h0 + k \<Longrightarrow> door_ok (ncells h0) cs E h d"
    unfolding ginv_def by auto
  from i9[OF d] obtain b p where
    o: "closed (door_of h d)" "(b, p) \<in> E"
       "reg h (cref_at (ncells h0) cs p) (dkey1 b) = Some d"
       "reg h (cref_at (ncells h0) cs (prevp b p)) (dkey2 b) = Some d"
    unfolding door_ok_def by blast
  from i7[OF o(2)] have g: "guardp b p" "ingrid rs cs p" by simp_all
  from i8[OF g(2) o(3)] have "slot_ok (ncells h0) cs E h p (dkey1 b) d" by simp
  then have "cell1 (door_of h d) = cref_at (ncells h0) cs (prevp b p)
       \<and> cell2 (door_of h d) = cref_at (ncells h0) cs p"
    unfolding slot_ok_def by (auto simp only: dkey_simps)
  with o g show ?thesis by blast
qed

lemma prevp_adjacent:
  assumes "guardp b p" "row a = fst (prevp b p)" "col a = snd (prevp b p)"
    "row c = fst p" "col c = snd p"
  shows "adjacent a c"
  using assms by (cases p) (auto simp: adjacent_def prevp_def guardp_def)


lemma construct_doors:
  assumes "construct rs cs al h0 = (maze, h)"
  shows "mdoors maze = map Some [ndoors h0..<ndoors h0 + (rs * (cs - 1) + cs * (rs - 1))]
       \<and> ndoors h = ndoors h0 + (rs * (cs - 1) + cs * (rs - 1))
       \<and> (\<forall>d. ndoors h0 \<le> d \<and> d < ndoors h \<longrightarrow>
              adjacent (cell_of h (cell1 (door_of h d))) (cell_of h (cell2 (door_of h d)))
            \<and> closed (door_of h d)
            \<and> (\<exists>key. reg h (cell1 (door_of h d)) key = Some d)
            \<and> (\<exists>key. reg h (cell2 (door_of h d)) key = Some d))"
proof -
  let ?N = "rs * (cs - 1) + cs * (rs - 1)"
  note g = construct_ginv(1)[OF assms]
  from g have nd: "ndoors h = ndoors h0 + ?N"
    and ds: "mdoors maze = map Some [ndoors h0..<ndoors h0 + ?N] @ replicate (?N - ?N) None"
    and rc: "\<And>p. ingrid rs cs p \<Longrightarrow> row (cell_of h (cref_at (ncells h0) cs p)) = fst p
                  \<and> col (cell_of h (cref_at (ncells h0) cs p)) = snd p"
    unfolding ginv_def by auto
  have "adjacent (cell_of h (cell1 (door_of h d))) (cell_of h (cell2 (door_of h d)))
            \<and> closed (door_of h d)
            \<and> (\<exists>key. reg h (cell1 (door_of h d)) key = Some d)
            \<and> (\<exists>key. reg h (cell2 (door_of h d)) key = Some d)"
    if "ndoors h0 \<le> d" "d < ndoors h" for d
  proof -
    from that nd have "d < ndoors h0 + ?N" by simp
    from ginv_door[OF g that(1) this] obtain b p where
      o: "guardp b p" "ingrid rs cs p" "closed (door_of h d)"
         "cell1 (door_of h d) = cref_at (ncells h0) cs (prevp b p)"
         "cell2 (door_of h d) = cref_at (ncells h0) cs p"
         "reg h (cref_at (ncells h0) cs p) (dkey1 b) = Some d"
         "reg h (cref_at (ncells h0) cs (prevp b p)) (dkey2 b) = Some d"
      by blast
    from rc[OF o(2)] rc[OF prevp_ingrid[OF o(2)], of b] o(1,4,5)
    have "adjacent (cell_of h (cell1 (door_of h d))) (cell_of h (cell2 (door_of h d)))"
      by (intro prevp_adjacent[of b p]) simp_all
    with o show ?thesis by auto
  qed
  with nd ds show ?thesis by simp
qed

section \<open>The shuffle and the grouping of doors\<close>

lemma random_shuffle_loop_props:
  "n \<le> length arr \<Longrightarrow> random_shuffle_loop n arr r = (arr', r') \<Longrightarrow>
     set arr' = set arr \<and> distinct arr' = distinct arr \<and> length arr' = length arr"
proof (induction n arr r rule: random_shuffle_loop.induct)
  case (1 n arr r)
  show ?case
  proof (cases "n > 1")
    case False
    with 1(3) show ?thesis by simp
  next
    case True
    obtain k r1 where ri: "random_index n r = (k, r1)" by (cases "random_index n r")
    from True ri have k: "k < n" by (auto simp: random_index_def)
    let ?a = "arr[n - 1 := arr ! k, k := arr ! (n - 1)]"
    from True ri 1(3) have rec: "random_shuffle_loop (n - 1) ?a r1 = (arr', r')"
      by (simp add: Let_def)
    from 1(2) have len: "n - 1 \<le> length ?a" by simp
    from k 1(2) True have b: "n - 1 < length arr" "k < length arr" by simp_all
    note IH = 1(1)[OF True ri[symmetric] refl refl refl len rec]
    with set_swap[OF b] distinct_swap[OF b] show ?thesis by simp
  qed
qed

lemma random_shuffle_props:
  "random_shuffle arr r = (arr', r') \<Longrightarrow>
     set arr' = set arr \<and> distinct arr' = distinct arr \<and> length arr' = length arr"
  unfolding random_shuffle_def by (rule random_shuffle_loop_props) simp_all

lemma randomizeMaze_object:
  assumes "randomizeMaze maze h r = Some (res, maze', h', r')"
  shows "rows maze' = rows maze \<and> cols maze' = cols maze \<and> algo maze' = algo maze
       \<and> cells maze' = cells maze
       \<and> set (mdoors maze') = set (mdoors maze)
       \<and> distinct (mdoors maze') = distinct (mdoors maze)
       \<and> length (mdoors maze') = length (mdoors maze)
       \<and> (algo maze \<noteq> ''kruskal'' \<longrightarrow> maze' = maze)"
  using assms
  by (auto simp: randomizeMaze_def createRandomMazeKruskal_def Let_def
      split: if_splits option.splits prod.splits dest: random_shuffle_props)

lemma group_fold:
  "fold (group_step h) (map Some ds) (Inr [(''|'', a), (''-'', b)])
     = Inr [(''|'', a @ filter (\<lambda>d. direction h d = ''|'') ds),
            (''-'', b @ filter (\<lambda>d. direction h d = ''-'') ds)]"
  by (induction ds arbitrary: a b) (auto simp: group_step_def direction_def)

lemma map_Some_perm:
  assumes "set xs = set (map Some ys)" "distinct xs = distinct (map Some ys)"
    "length xs = length (map Some ys)"
  shows "\<exists>ds. xs = map Some ds \<and> set ds = set ys \<and> distinct ds = distinct ys"
proof -
  from assms(1) have "None \<notin> set xs" by auto
  then have x: "xs = map Some (map the xs)"
    by (induction xs) auto
  from assms(1) have "the ` set xs = the ` Some ` set ys" by simp
  then have s: "set (map the xs) = set ys" by (simp add: image_image)
  have dm: "distinct (map Some zs) = distinct zs" for zs :: "'a list"
    by (simp add: distinct_map)
  from x have "distinct xs = distinct (map Some (map the xs))" by simp
  with dm[of "map the xs"] dm[of ys] assms(2) have "distinct (map the xs) = distinct ys"
    by simp
  with x s show ?thesis by blast
qed

lemma adjacent_direction:
  assumes "adjacent (cell_of h (cell1 (door_of h d))) (cell_of h (cell2 (door_of h d)))"
  shows "(direction h d = ''|'' \<longleftrightarrow>
            row (cell_of h (cell1 (door_of h d))) = row (cell_of h (cell2 (door_of h d)))
          \<and> col (cell_of h (cell1 (door_of h d))) \<noteq> col (cell_of h (cell2 (door_of h d))))
       \<and> (direction h d = ''-'' \<longleftrightarrow>
            col (cell_of h (cell1 (door_of h d))) = col (cell_of h (cell2 (door_of h d)))
          \<and> row (cell_of h (cell1 (door_of h d))) \<noteq> row (cell_of h (cell2 (door_of h d))))"
  using assms by (auto simp: adjacent_def direction_def)

lemma door_frame_adjacent:
  assumes "door_frame h h'"
    "adjacent (cell_of h (cell1 (door_of h d))) (cell_of h (cell2 (door_of h d)))"
  shows "adjacent (cell_of h' (cell1 (door_of h' d))) (cell_of h' (cell2 (door_of h' d)))"
  using assms by (simp add: door_frame_def cell_of_def)

section \<open>Open doors stay open\<close>

lemma stays_open_refl: "stays_open h h"
  by (simp add: stays_open_def)

lemma stays_open_trans: "stays_open h h1 \<Longrightarrow> stays_open h1 h2 \<Longrightarrow> stays_open h h2"
  unfolding stays_open_def by blast

lemma door_frame_stays_open: "door_frame h h' \<Longrightarrow> stays_open h h'"
  by (auto simp: door_frame_def stays_open_def ndoors_def)

lemma construct_stays_open:
  assumes "construct rs cs al h = (maze, h')"
  shows "stays_open h h'"
proof -
  from construct_ginv(1)[OF assms] have t: "take (ndoors h) (doorH h') = doorH h"
    and n: "ndoors h' = ndoors h + (rs * (cs - 1) + cs * (rs - 1))"
    unfolding ginv_def by simp_all
  have "door_of h' d = door_of h d" if "d < ndoors h" for d
  proof -
    from that have "take (ndoors h) (doorH h') ! d = doorH h' ! d" by simp
    with t show ?thesis by (simp add: door_of_def)
  qed
  with n show ?thesis by (simp add: stays_open_def)
qed

lemma generators_frame:
  "createRandomMazeRec maze h r = Some (res, h', r') \<Longrightarrow> door_frame h h'"
  "createRandomMazePrim maze h r = Some (res, h', r') \<Longrightarrow> door_frame h h'"
  "createRandomMazeKruskal maze h r = Some (res, maze', h', r') \<Longrightarrow> door_frame h h'"
  by (auto simp: createRandomMazePrim_def createRandomMazeRec_def
        createRandomMazeKruskal_def Let_def door_frame_refl
      split: if_splits option.splits prod.splits sum.splits
      dest: prim_loop_frame rec_loop_frame kruskal_loop_frame)

lemma operation_stays_open: "operation h h' \<Longrightarrow> stays_open h h'"
proof (induction rule: operation.induct)
  case (op_construct rs cs al h maze h')
  then show ?case by (rule construct_stays_open)
next
  case (op_new c h r res maze h' r')
  obtain m1 h1 where c: "construct (config_rows c) (config_cols c) (config_algo c) h = (m1, h1)"
    by (cases "construct (config_rows c) (config_cols c) (config_algo c) h")
  with op_new have "randomizeMaze m1 h1 r = Some (res, maze, h', r')"
    by (simp add: new_MazeGenerator_def)
  from construct_stays_open[OF c] door_frame_stays_open[OF randomizeMaze_frame[OF this]]
  show ?case by (rule stays_open_trans)
next
  case (op_randomize maze h r res maze' h' r')
  then show ?case by (intro door_frame_stays_open randomizeMaze_frame)
next
  case (op_rec maze h r res h' r')
  then show ?case by (intro door_frame_stays_open generators_frame(1))
next
  case (op_prim maze h r res h' r')
  then show ?case by (intro door_frame_stays_open generators_frame(2))
next
  case (op_kruskal maze h r res maze' h' r')
  then show ?case by (intro door_frame_stays_open generators_frame(3))
next
  case (op_solve maze startCell endCell h r path maze' h' r')
  then have "h' = h"
    by (auto simp: solve_def split: option.splits dest: solve_loop_frame)
  then show ?case by (simp add: stays_open_refl)
next
  case (op_group maze h groups maze' h')
  then show ?case by (simp add: groupDoors_def stays_open_refl)
qed

lemma operations_stay_open: "operation\<^sup>*\<^sup>* h h' \<Longrightarrow> stays_open h h'"
  by (induction rule: rtranclp_induct)
     (auto intro: stays_open_refl stays_open_trans operation_stays_open)

section \<open>The constructor builds a well-formed store\<close>

lemma fold_preserves:
  assumes "\<And>x s. Q s \<Longrightarrow> Q (f x s)" and "Q s"
  shows "Q (fold f xs s)"
  using assms(2) by (induction xs arbitrary: s) (simp_all add: assms(1))

lemma link_keys:
  assumes "\<forall>c<ncells h. distinct (map fst (doors (cell_of h c)))"
    and "link c1 c2 key1 key2 (ds, k, h) = (ds', k', h')"
  shows "\<forall>c<ncells h'. distinct (map fst (doors (cell_of h' c)))"
  using assms by (auto simp: link_eq cell_of_set_door distinct_update)

lemma add_doors_keys:
  assumes "\<forall>c<ncells (snd (snd s)). distinct (map fst (doors (cell_of (snd (snd s)) c)))"
  shows "\<forall>c<ncells (snd (snd (add_doors cls x y s))).
           distinct (map fst (doors (cell_of (snd (snd (add_doors cls x y s))) c)))"
proof -
  have step: "\<forall>c<ncells (snd (snd (link c1 c2 k1 k2 t))).
               distinct (map fst (doors (cell_of (snd (snd (link c1 c2 k1 k2 t))) c)))"
    if "\<forall>c<ncells (snd (snd t)). distinct (map fst (doors (cell_of (snd (snd t)) c)))"
    for c1 c2 k1 k2 t
  proof -
    obtain ds k h where t: "t = (ds, k, h)" by (cases t)
    obtain ds' k' h' where l: "link c1 c2 k1 k2 (ds, k, h) = (ds', k', h')"
      by (cases "link c1 c2 k1 k2 (ds, k, h)")
    from that t link_keys[OF _ l] l show ?thesis by simp
  qed
  from assms show ?thesis
    unfolding add_doors_def add_up_door_link add_left_door_link
    by (simp add: step)
qed

lemma construct_keys:
  assumes "construct rs cs al h0 = (maze, h)"
    and "\<forall>c<ncells h0. distinct (map fst (doors (cell_of h0 c)))"
  shows "\<forall>c<ncells h. distinct (map fst (doors (cell_of h c)))"
proof -
  let ?Q = "\<lambda>s. \<forall>c<ncells (snd (snd s)). distinct (map fst (doors (cell_of (snd (snd s)) c)))"
  let ?cls = "map (\<lambda>x. map (\<lambda>y. ncells h0 + x * cs + y) [0..<cs]) [0..<rs]"
  let ?new = "concat (map (\<lambda>x. map (\<lambda>y. \<lparr>row = x, col = y, doors = []\<rparr>) [0..<cs]) [0..<rs])"
  let ?h1 = "h0\<lparr>cellH := cellH h0 @ ?new\<rparr>"
  let ?init = "(replicate (rs * (cs - 1) + cs * (rs - 1)) None, 0::nat, ?h1)"
  have new: "doors c = []" if "c \<in> set ?new" for c
    using that by auto
  have "distinct (map fst (doors (cell_of ?h1 c)))" if "c < ncells ?h1" for c
  proof (cases "c < ncells h0")
    case True
    with assms(2) show ?thesis by (simp add: cell_of_def ncells_def nth_append)
  next
    case False
    with that have "?new ! (c - ncells h0) \<in> set ?new"
      by (intro nth_mem) (simp add: ncells_def)
    from new[OF this] False show ?thesis by (simp add: cell_of_def ncells_def nth_append)
  qed
  then have i: "?Q ?init" by simp
  have r: "?Q (doors_row ?cls cs x s)" if "?Q s" for x s
    unfolding doors_row_def using that
    by (rule fold_preserves[where Q = ?Q, rotated]) (rule add_doors_keys)
  have "?Q (fold (doors_row ?cls cs) [0..<rs] ?init)"
    using i by (rule fold_preserves[where Q = ?Q, rotated]) (rule r)
  moreover from assms(1) have "h = snd (snd (fold (doors_row ?cls cs) [0..<rs] ?init))"
    by (cases "fold (doors_row ?cls cs) [0..<rs] ?init") (simp add: construct_def create_cells_eq)
  ultimately show ?thesis by simp
qed

lemma cref_at_surj:
  assumes "c0 \<le> c" "c < c0 + rs * cs"
  shows "\<exists>p. ingrid rs cs p \<and> c = cref_at c0 cs p"
proof -
  from assms have pos: "0 < cs" by (cases cs) auto
  let ?p = "((c - c0) div cs, (c - c0) mod cs)"
  from assms have "c - c0 < rs * cs" by simp
  then have "(c - c0) div cs < rs" by (simp add: less_mult_imp_div_less)
  with pos have "ingrid rs cs ?p" by (simp add: ingrid_def)
  moreover from assms have "c = cref_at c0 cs ?p" by (simp add: cref_at_def)
  ultimately show ?thesis by blast
qed

lemma wf_heapI:
  assumes "\<And>c. c < ncells h \<Longrightarrow> wf_cell h c" "\<And>d. d < ndoors h \<Longrightarrow> wf_door h d"
  shows "wf_heap h"
  using assms by (simp add: wf_heap_def)

lemma wf_heapD:
  assumes "wf_heap h"
  shows "c < ncells h \<Longrightarrow> wf_cell h c" "d < ndoors h \<Longrightarrow> wf_door h d"
  using assms by (simp_all add: wf_heap_def)

lemma reg_mem: "reg h c key = Some d \<Longrightarrow> d \<in> set (map snd (doors (cell_of h c)))"
  unfolding reg_def by (auto dest: map_of_SomeD intro: rev_image_eqI)

lemma mem_reg:
  assumes "distinct (map fst (doors (cell_of h c)))" "d \<in> set (map snd (doors (cell_of h c)))"
  shows "\<exists>key. reg h c key = Some d"
proof -
  from assms(2) obtain key where "(key, d) \<in> set (doors (cell_of h c))" by auto
  with assms(1) have "map_of (doors (cell_of h c)) key = Some d" by simp
  then show ?thesis unfolding reg_def by blast
qed

lemma construct_wf_heap:
  assumes c: "construct rs cs al h0 = (maze, h)" and wf: "wf_heap h0"
  shows "wf_heap h"
proof (rule wf_heapI)
  let ?N = "rs * (cs - 1) + cs * (rs - 1)"
  note g = construct_ginv(1)[OF c]
  from g have nc: "ncells h = ncells h0 + rs * cs"
    and tc: "take (ncells h0) (cellH h) = cellH h0"
    and td: "take (ndoors h0) (doorH h) = doorH h0"
    and nd: "ndoors h = ndoors h0 + ?N"
    and i8: "\<And>p key d. ingrid rs cs p \<Longrightarrow> reg h (cref_at (ncells h0) cs p) key = Some d \<Longrightarrow>
               ndoors h0 \<le> d \<and> d < ndoors h0 + ?N
               \<and> slot_ok (ncells h0) cs (done_before cs rs 0) h p key d"
    unfolding ginv_def by auto
  have oc: "cell_of h c = cell_of h0 c" if "c < ncells h0" for c
  proof -
    from that have "take (ncells h0) (cellH h) ! c = cellH h ! c" by simp
    with tc show ?thesis by (simp add: cell_of_def)
  qed
  have od: "door_of h d = door_of h0 d" if "d < ndoors h0" for d
  proof -
    from that have "take (ndoors h0) (doorH h) ! d = doorH h ! d" by simp
    with td show ?thesis by (simp add: door_of_def)
  qed
  from wf have keys0: "\<forall>c<ncells h0. distinct (map fst (doors (cell_of h0 c)))"
    by (simp add: wf_heap_def wf_cell_def)
  note keys = construct_keys[OF c keys0]
  show "wf_cell h c" if lt: "c < ncells h" for c
  proof (cases "c < ncells h0")
    case True
    from wf_heapD(1)[OF wf True] have w: "wf_cell h0 c" .
    show ?thesis
      unfolding wf_cell_def
    proof (intro conjI ballI)
      from keys lt show "distinct (map fst (doors (cell_of h c)))" by simp
    next
      fix d assume "d \<in> set (map snd (doors (cell_of h c)))"
      with oc[OF True] have d: "d \<in> set (map snd (doors (cell_of h0 c)))" by simp
      with w have "d < ndoors h0" and e: "cell1 (door_of h0 d) = c \<or> cell2 (door_of h0 d) = c"
        by (auto simp: wf_cell_def)
      with od[of d] nd show "d < ndoors h" "cell1 (door_of h d) = c \<or> cell2 (door_of h d) = c"
        by simp_all
    qed
  next
    case False
    with lt nc cref_at_surj[of "ncells h0" c rs cs] obtain p where
      p: "ingrid rs cs p" "c = cref_at (ncells h0) cs p" by auto
    show ?thesis
      unfolding wf_cell_def
    proof (intro conjI ballI)
      from keys lt show k: "distinct (map fst (doors (cell_of h c)))" by simp
      fix d assume "d \<in> set (map snd (doors (cell_of h c)))"
      from mem_reg[OF k this] obtain key where "reg h c key = Some d" by blast
      with i8[OF p(1), of key d] p(2)
      have r: "d < ndoors h0 + ?N" "slot_ok (ncells h0) cs (done_before cs rs 0) h p key d"
        by simp_all
      from r(1) nd show "d < ndoors h" by simp
      from r(2) p(2) show "cell1 (door_of h d) = c \<or> cell2 (door_of h d) = c"
        unfolding slot_ok_def by blast
    qed
  qed
  show "wf_door h d" if lt: "d < ndoors h" for d
  proof (cases "d < ndoors h0")
    case True
    from wf_heapD(2)[OF wf True] have w: "wf_door h0 d" .
    then have r: "cell1 (door_of h0 d) < ncells h0" "cell2 (door_of h0 d) < ncells h0"
      by (simp_all add: wf_door_def)
    from w od[OF True] oc[OF r(1)] oc[OF r(2)] r nc show ?thesis
      by (simp add: wf_door_def)
  next
    case False
    with lt nd have "ndoors h0 \<le> d" "d < ndoors h0 + ?N" by simp_all
    from ginv_door[OF g this] obtain b p where
      o: "guardp b p" "ingrid rs cs p"
         "cell1 (door_of h d) = cref_at (ncells h0) cs (prevp b p)"
         "cell2 (door_of h d) = cref_at (ncells h0) cs p"
         "reg h (cref_at (ncells h0) cs p) (dkey1 b) = Some d"
         "reg h (cref_at (ncells h0) cs (prevp b p)) (dkey2 b) = Some d"
      by blast
    note q = prevp_ingrid[OF o(2), of b]
    from cref_at_inj[OF q o(2), of "ncells h0"] prevp_neq[OF o(1)]
    have "cref_at (ncells h0) cs (prevp b p) \<noteq> cref_at (ncells h0) cs p" by simp
    with o(3,4) cref_at_less[OF q, of "ncells h0"] cref_at_less[OF o(2), of "ncells h0"] nc
      reg_mem[OF o(5)] reg_mem[OF o(6)]
    show ?thesis by (simp add: wf_door_def)
  qed
qed

lemma construct_wf_maze:
  assumes c: "construct rs cs al h0 = (maze, h)"
  shows "wf_maze maze h"
proof -
  let ?N = "rs * (cs - 1) + cs * (rs - 1)"
  note g = construct_ginv[OF c]
  from g(1) have nc: "ncells h = ncells h0 + rs * cs" and nd: "ndoors h = ndoors h0 + ?N"
    and ds: "mdoors maze = map Some [ndoors h0..<ndoors h0 + ?N] @ replicate (?N - ?N) None"
    unfolding ginv_def by auto
  have "c' < ncells h" if "rw \<in> set (cells maze)" "c' \<in> set rw" for rw c'
  proof -
    from that g(2) obtain x where x: "x < rs" "c' \<in> set (map (\<lambda>y. ncells h0 + x * cs + y) [0..<cs])"
      by auto
    then have "c' - (ncells h0 + x * cs) < cs"
      "c' = ncells h0 + x * cs + (c' - (ncells h0 + x * cs))" by auto
    with x(1) cref_at_less[of rs cs "(x, c' - (ncells h0 + x * cs))" "ncells h0"] nc
    show ?thesis
      by (simp add: ingrid_def cref_at_def)
  qed
  moreover have "length rw = cs" if "rw \<in> set (cells maze)" for rw
    using that g(2) by auto
  moreover from ds nd have "\<forall>d\<in>set (mdoors maze). case d of None \<Rightarrow> False | Some d' \<Rightarrow> d' < ndoors h"
    by auto
  ultimately show ?thesis using g(2,3,4) by (simp add: wf_maze_def)
qed

lemma wf_empty_heap: "wf_heap empty_heap"
  by (simp add: wf_heap_def empty_heap_def ncells_def ndoors_def)

lemma door_frame_wf_heap:
  assumes "door_frame h h'" "wf_heap h"
  shows "wf_heap h'"
proof -
  from assms(1) have c: "cellH h' = cellH h" and n: "ndoors h' = ndoors h"
    and e: "\<And>d. cell1 (door_of h' d) = cell1 (door_of h d)"
           "\<And>d. cell2 (door_of h' d) = cell2 (door_of h d)"
    by (simp_all add: door_frame_def ndoors_def)
  from c have c': "\<And>x. cell_of h' x = cell_of h x" "ncells h' = ncells h"
    by (simp_all add: cell_of_def ncells_def)
  from assms(2) show ?thesis
    by (simp add: wf_heap_def wf_cell_def wf_door_def c' n e)
qed

lemma door_frame_wf_maze:
  assumes "door_frame h h'" "wf_maze maze h"
  shows "wf_maze maze h'"
proof -
  from assms(1) have "ncells h' = ncells h" "ndoors h' = ndoors h"
    by (simp_all add: door_frame_def ndoors_def ncells_def)
  then have "wf_maze maze h' = wf_maze maze h" unfolding wf_maze_def by (simp only:)
  with assms(2) show ?thesis by simp
qed

section \<open>Termination of the generators and of the solver\<close>

lemma other_side_in:
  assumes "wf_heap h" "c < ncells h" "d \<in> set (map snd (doors (cell_of h c)))"
  shows "other_side h c d < ncells h"
proof -
  from wf_heapD(1)[OF assms(1,2)] assms(3) have "d < ndoors h" by (auto simp: wf_cell_def)
  from wf_heapD(2)[OF assms(1) this] show ?thesis by (simp add: wf_door_def other_side_def)
qed

lemma all_neighbors_in:
  assumes "wf_heap h" "c < ncells h" "n \<in> set (all_neighbors h c)"
  shows "n < ncells h"
  using assms other_side_in[OF assms(1,2)] by (auto simp: all_neighbors_def)

lemma random_index_less: "0 < n \<Longrightarrow> fst (random_index n r) < n"
  by (simp add: random_index_def)

lemma card_unvisited_less:
  assumes "n < (N::nat)" "n \<notin> v"
  shows "card ({..<N} - insert n v) < card ({..<N} - v)"
proof -
  from assms have "{..<N} - insert n v \<subset> {..<N} - v" by auto
  moreover have "finite ({..<N} - v)" by simp
  ultimately show ?thesis by (intro psubset_card_mono)
qed

lemma ncells_open_door [simp]: "ncells (open_door d h) = ncells h"
  by (simp add: open_door_def ncells_def)

lemma wf_heap_open_door: "wf_heap h \<Longrightarrow> wf_heap (open_door d h)"
  using door_frame_wf_heap[OF door_frame_open_door] .

lemma rec_loop_total:
  assumes "wf_heap h" "cell < ncells h" "\<forall>c\<in>set stack. c < ncells h"
  shows "\<exists>y. rec_loop cell v stack h r = Some y"
  using assms
proof (induction "card ({..<ncells h} - v)" arbitrary: cell v stack h r rule: less_induct)
  case less
  note outer = less.hyps
  note wf = less.prems(1)
  have grow: "\<exists>y. rec_loop cell v stack h r = Some y"
    if c: "cell < ncells h" and s: "\<forall>c\<in>set stack. c < ncells h"
      and u: "filter (\<lambda>n. n \<notin> v) (all_neighbors h cell) \<noteq> []"
    for cell stack r
  proof -
    let ?u = "filter (\<lambda>n. n \<notin> v) (all_neighbors h cell)"
    obtain i r' where ri: "random_index (length ?u) r = (i, r')"
      by (cases "random_index (length ?u) r")
    with u random_index_less[of "length ?u" r] have i: "i < length ?u" by simp
    let ?n = "?u ! i"
    from i have "?n \<in> set ?u" by (rule nth_mem)
    then have n: "?n \<notin> v" "?n \<in> set (all_neighbors h cell)" by simp_all
    from all_neighbors_in[OF wf c n(2)] have nl: "?n < ncells h" .
    show ?thesis
    proof (cases "find_door h ?n cell")
      case None
      with u ri show ?thesis by (subst rec_loop.simps) (simp add: Let_def del: split_paired_Ex)
    next
      case (Some d)
      from card_unvisited_less[OF nl n(1)]
      have "card ({..<ncells (open_door d h)} - insert ?n v) < card ({..<ncells h} - v)"
        by simp
      from outer[OF this wf_heap_open_door[OF wf], of ?n "stack @ [cell]" r'] nl c s
      obtain y where "rec_loop ?n (insert ?n v) (stack @ [cell]) (open_door d h) r' = Some y"
        by auto
      with u ri Some show ?thesis by (subst rec_loop.simps) (simp add: Let_def del: split_paired_Ex)
    qed
  qed
  from less.prems(3) less.prems(2) show ?case
  proof (induction stack arbitrary: cell r rule: rev_induct)
    case Nil
    show ?case
    proof (cases "filter (\<lambda>n. n \<notin> v) (all_neighbors h cell) = []")
      case True
      then show ?thesis by (subst rec_loop.simps) (simp add: Let_def del: split_paired_Ex)
    next
      case False
      from grow[OF Nil(2) _ False] show ?thesis by simp
    qed
  next
    case (snoc x xs)
    show ?case
    proof (cases "filter (\<lambda>n. n \<notin> v) (all_neighbors h cell) = []")
      case True
      from snoc.prems(1) have "x < ncells h" "\<forall>c\<in>set xs. c < ncells h" by simp_all
      from snoc.IH[OF this(2,1), of r] obtain y where "rec_loop x v xs h r = Some y" by blast
      with True show ?thesis by (subst rec_loop.simps) (simp add: Let_def del: split_paired_Ex)
    next
      case False
      from grow[OF snoc.prems(2,1) False] show ?thesis .
    qed
  qed
qed

lemma pickWall_props:
  assumes "walls \<noteq> []" "pickWall walls r = (w, walls1, r1)"
  shows "w \<in> set walls" "set walls1 \<subseteq> set walls" "length walls1 = length walls - 1"
proof -
  let ?l = "length walls - 1"
  obtain k r' where ri: "random_index (?l + 1) r = (k, r')" by (cases "random_index (?l + 1) r")
  from random_index_less[of "?l + 1" r] ri assms(1) have k: "k < length walls" by simp
  from assms(1) have l: "?l < length walls" by simp
  let ?w2 = "walls[k := walls ! ?l, ?l := walls ! k]"
  from assms(2) ri have e: "w = last ?w2" "walls1 = butlast ?w2"
    by (simp_all add: pickWall_def Let_def)
  from assms(1) have ne: "?w2 \<noteq> []" by simp
  have s: "set ?w2 = set walls" using set_swap[OF k l] .
  from last_in_set[OF ne] s e(1) show "w \<in> set walls" by simp
  from in_set_butlastD[of _ ?w2] s e(2) show "set walls1 \<subseteq> set walls" by blast
  from e(2) show "length walls1 = length walls - 1" by simp
qed

lemma open_door_frame_simps [simp]:
  "cell1 (door_of (open_door d h) w) = cell1 (door_of h w)"
  "cell2 (door_of (open_door d h) w) = cell2 (door_of h w)"
  "cell_of (open_door d h) c = cell_of h c"
  "ndoors (open_door d h) = ndoors h"
  using door_frame_open_door[of h d]
  by (simp_all add: door_frame_def cell_of_def ndoors_def)

lemma prim_loop_total:
  assumes "wf_heap h" "\<forall>w\<in>set walls. w < ndoors h"
  shows "\<exists>y. prim_loop walls v h r = Some y"
  using assms
proof (induction "card ({..<ncells h} - v)" arbitrary: walls v h r rule: less_induct)
  case less
  note outer = less.hyps
  note wf = less.prems(1)
  from less.prems(2) show ?case
  proof (induction "length walls" arbitrary: walls r rule: less_induct)
    case inner: less
    show ?case
    proof (cases "walls = []")
      case True
      then show ?thesis by (subst prim_loop.simps) simp
    next
      case False
      obtain w walls1 r1 where pw: "pickWall walls r = (w, walls1, r1)"
        by (cases "pickWall walls r")
      note pp = pickWall_props[OF False pw]
      from pp(1) inner.prems have w: "w < ndoors h" by blast
      from pp(2) inner.prems have w1: "\<forall>w\<in>set walls1. w < ndoors h" by blast
      from pp(3) False have len: "length walls1 < length walls" by (cases walls) simp_all
      show ?thesis
      proof (cases "cell1 (door_of h w) \<in> v \<and> cell2 (door_of h w) \<in> v")
        case True
        from inner.hyps[OF len w1, of r1] obtain y where "prim_loop walls1 v h r1 = Some y"
          by blast
        with False pw True show ?thesis
          by (subst prim_loop.simps) (simp del: split_paired_Ex)
      next
        case nb: False
        let ?h1 = "open_door w h"
        let ?c = "if cell1 (door_of h w) \<in> v then cell2 (door_of h w) else cell1 (door_of h w)"
        from nb have cv: "?c \<notin> v" by auto
        from wf_heapD(2)[OF wf w] have cl: "?c < ncells h" by (simp add: wf_door_def)
        from wf_heapD(1)[OF wf cl]
        have dc: "\<forall>d\<in>set (map snd (doors (cell_of h ?c))). d < ndoors h"
          by (auto simp: wf_cell_def)
        from card_unvisited_less[OF cl cv]
        have "card ({..<ncells ?h1} - insert ?c v) < card ({..<ncells h} - v)" by simp
        moreover from w1 dc
        have "\<forall>w\<in>set (walls1 @ map snd (doors (cell_of h ?c))). w < ndoors ?h1"
          by auto
        ultimately obtain y where
          "prim_loop (walls1 @ map snd (doors (cell_of h ?c))) (insert ?c v) ?h1 r1 = Some y"
          using outer[OF _ wf_heap_open_door[OF wf], where v = "insert ?c v"
              and walls = "walls1 @ map snd (doors (cell_of h ?c))" and r = r1]
          by blast
        with False pw nb show ?thesis
          by (subst prim_loop.simps)
             (auto simp add: Let_def simp del: split_paired_Ex split: if_splits)
      qed
    qed
  qed
qed

lemma kruskal_loop_total:
  assumes "uf_inv uf"
  shows "\<exists>y. kruskal_loop ds uf h = Some y"
  using assms
proof (induction ds arbitrary: uf h)
  case Nil
  show ?case by simp
next
  case (Cons x ds)
  show ?case
  proof (cases x)
    case None
    then show ?thesis by simp
  next
    case (Some d)
    let ?a = "Some (cell1 (door_of h d))" and ?b = "Some (cell2 (door_of h d))"
    from joined_spec[OF Cons.prems, of ?a ?b] obtain b uf1 where
      j: "joined uf ?a ?b = Some (b, uf1)" "uf_inv uf1" by blast
    show ?thesis
    proof (cases b)
      case True
      from Cons.IH[OF j(2), of h] obtain y where "kruskal_loop ds uf1 h = Some y" by blast
      with Some j(1) True show ?thesis by (simp del: split_paired_Ex)
    next
      case False
      let ?h1 = "open_door d h"
      from join_spec[OF j(2), of ?a ?b] obtain uf2 where
        k: "join uf1 ?a ?b = Some uf2" "uf_inv uf2" by blast
      from Cons.IH[OF k(2), of ?h1] obtain y where "kruskal_loop ds uf2 ?h1 = Some y" by blast
      with Some j(1) False k(1) show ?thesis by (simp add: Let_def del: split_paired_Ex)
    qed
  qed
qed

lemma update_fresh: "k \<notin> fst ` set al \<Longrightarrow> AList.update k v al = al @ [(k, v)]"
  by (induction al) auto

lemma neighbors_fold:
  assumes "distinct (map fst xs)" "fst ` set acc \<inter> fst ` set xs = {}"
  shows "fold (\<lambda>(dir, door) nb. if closed (door_of h door) then nb
                                  else AList.update dir (other_side h c door) nb) xs acc
         = acc @ map (\<lambda>(dir, d). (dir, other_side h c d))
                   (filter (\<lambda>(dir, d). \<not> closed (door_of h d)) xs)"
  using assms
proof (induction xs arbitrary: acc)
  case Nil
  show ?case by simp
next
  case (Cons x xs)
  obtain dir d where x: "x = (dir, d)" by (cases x)
  from Cons.prems x have d: "distinct (map fst xs)" "dir \<notin> fst ` set xs" "dir \<notin> fst ` set acc"
    and a: "fst ` set acc \<inter> fst ` set xs = {}" by auto
  show ?case
  proof (cases "closed (door_of h d)")
    case True
    with Cons.IH[OF d(1) a] x show ?thesis by simp
  next
    case False
    from d(2) a have "fst ` set (acc @ [(dir, other_side h c d)]) \<inter> fst ` set xs = {}"
      by auto
    from Cons.IH[OF d(1) this] False x update_fresh[OF d(3)] show ?thesis by simp
  qed
qed

lemma canVisit_eq:
  assumes "distinct (map fst (doors (cell_of h c)))"
  shows "canVisit h c
         = map (other_side h c)
             (filter (\<lambda>d. \<not> closed (door_of h d)) (map snd (doors (cell_of h c))))"
proof -
  have "map snd (map (\<lambda>(dir, d). (dir, other_side h c d))
                  (filter (\<lambda>(dir, d). \<not> closed (door_of h d)) xs))
        = map (other_side h c) (filter (\<lambda>d. \<not> closed (door_of h d)) (map snd xs))"
    for xs :: "(string \<times> dref) list"
    by (induction xs) auto
  with neighbors_fold[OF assms, of "[]" h c] show ?thesis
    by (simp add: canVisit_def neighbors_def)
qed

lemma canVisit_in:
  assumes "wf_heap h" "c < ncells h" "n \<in> set (canVisit h c)"
  shows "n < ncells h"
proof -
  from wf_heapD(1)[OF assms(1,2)] have "distinct (map fst (doors (cell_of h c)))"
    by (simp add: wf_cell_def)
  from assms(3)[unfolded canVisit_eq[OF this]] other_side_in[OF assms(1,2)]
  show ?thesis by auto
qed

lemma solve_loop_total:
  assumes "wf_heap h" "\<forall>c. current = Some c \<longrightarrow> c < ncells h" "\<forall>c\<in>set path. c < ncells h"
  shows "\<exists>y. solve_loop endCell current path v h r = Some y"
  using assms(2,3)
proof (induction "card ({..<ncells h} - v)" arbitrary: current path v r rule: less_induct)
  case less
  note outer = less.hyps
  note wf = assms(1)
  from less.prems show ?case
  proof (induction "length path" arbitrary: current path r rule: less_induct)
    case inner: less
    show ?case
    proof (cases "current = Some endCell")
      case True
      then show ?thesis by (subst solve_loop.simps) simp
    next
      case ne: False
      show ?thesis
      proof (cases current)
        case None
        then show ?thesis by (subst solve_loop.simps) simp
      next
        case (Some c)
        with inner.prems(1) have c: "c < ncells h" by simp
        let ?u = "filter (\<lambda>n. n \<notin> v) (canVisit h c)"
        show ?thesis
        proof (cases "?u = []")
          case False
          obtain i r' where ri: "random_index (length ?u) r = (i, r')"
            by (cases "random_index (length ?u) r")
          with False random_index_less[of "length ?u" r] have i: "i < length ?u" by simp
          let ?n = "?u ! i"
          from i have "?n \<in> set ?u" by (rule nth_mem)
          then have n: "?n \<notin> v" "?n \<in> set (canVisit h c)" by simp_all
          from canVisit_in[OF wf c n(2)] have nl: "?n < ncells h" .
          from inner.prems(2) nl have "\<forall>c\<in>set (path @ [?n]). c < ncells h" by simp
          with outer[OF card_unvisited_less[OF nl n(1)], of "Some ?n" "path @ [?n]" r'] nl
          obtain y where
            "solve_loop endCell (Some ?n) (path @ [?n]) (insert ?n v) h r' = Some y"
            by auto
          with ne Some False ri show ?thesis
            by (subst solve_loop.simps) (simp add: Let_def del: split_paired_Ex)
        next
          case True
          show ?thesis
          proof (cases "path = []")
            case e: True
            with ne Some True show ?thesis by (subst solve_loop.simps) (simp add: Let_def)
          next
            case e: False
            let ?p = "butlast path"
            let ?cur = "if ?p = [] then None else Some (last ?p)"
            from e have len: "length ?p < length path" by (cases path) simp_all
            from inner.prems(2) have p: "\<forall>c\<in>set ?p. c < ncells h"
              by (auto dest: in_set_butlastD)
            then have "\<forall>c. ?cur = Some c \<longrightarrow> c < ncells h" by auto
            from inner.hyps[OF len this p, of r] obtain y where
              "solve_loop endCell ?cur ?p v h r = Some y" by blast
            with ne Some True e show ?thesis
              by (subst solve_loop.simps) (simp add: Let_def del: split_paired_Ex)
          qed
        qed
      qed
    qed
  qed
qed

lemma cell_at_in:
  assumes "wf_maze maze h" "cell_at maze i j = Inr cell"
  shows "cell < ncells h"
proof -
  from assms(2) have i: "i < length (cells maze)" "j < length (cells maze ! i)"
    "cell = cells maze ! i ! j"
    by (auto simp: cell_at_def split: if_splits)
  then have "cells maze ! i \<in> set (cells maze)" "cell \<in> set (cells maze ! i)" by simp_all
  with assms(1) show ?thesis unfolding wf_maze_def by blast
qed

lemma createRandomMazeRec_total:
  assumes "wf_heap h" "wf_maze maze h"
  shows "\<exists>y. createRandomMazeRec maze h r = Some y"
proof -
  obtain i r1 where a: "random_index (rows maze) r = (i, r1)"
    by (cases "random_index (rows maze) r")
  obtain j r2 where b: "random_index (cols maze) r1 = (j, r2)"
    by (cases "random_index (cols maze) r1")
  show ?thesis
  proof (cases "cell_at maze i j")
    case (Inl e)
    with a b show ?thesis by (simp add: createRandomMazeRec_def)
  next
    case (Inr cell)
    from rec_loop_total[OF assms(1) cell_at_in[OF assms(2) Inr], of "[]" "{}" r2] a b Inr
    show ?thesis by (simp add: createRandomMazeRec_def del: split_paired_Ex)
  qed
qed

lemma createRandomMazePrim_total:
  assumes "wf_heap h" "wf_maze maze h"
  shows "\<exists>y. createRandomMazePrim maze h r = Some y"
proof -
  obtain i r1 where a: "random_index (rows maze) r = (i, r1)"
    by (cases "random_index (rows maze) r")
  obtain j r2 where b: "random_index (cols maze) r1 = (j, r2)"
    by (cases "random_index (cols maze) r1")
  show ?thesis
  proof (cases "cell_at maze i j")
    case (Inl e)
    with a b show ?thesis by (simp add: createRandomMazePrim_def)
  next
    case (Inr cell)
    from wf_heapD(1)[OF assms(1) cell_at_in[OF assms(2) Inr]]
    have "\<forall>w\<in>set (map snd (doors (cell_of h cell))). w < ndoors h"
      by (auto simp: wf_cell_def)
    from prim_loop_total[OF assms(1) this, of "{cell}" r2] a b Inr
    show ?thesis by (simp add: createRandomMazePrim_def del: split_paired_Ex)
  qed
qed

lemma createRandomMazeKruskal_total: "\<exists>y. createRandomMazeKruskal maze h r = Some y"
proof -
  obtain ds r1 where a: "random_shuffle (mdoors maze) r = (ds, r1)"
    by (cases "random_shuffle (mdoors maze) r")
  have "uf_inv ([] :: cref UF)" by (simp add: uf_inv_def)
  from kruskal_loop_total[OF this, of ds h] obtain res h1 where
    "kruskal_loop ds [] h = Some (res, h1)" by auto
  with a show ?thesis by (simp add: createRandomMazeKruskal_def)
qed

lemma randomizeMaze_total:
  assumes "wf_heap h" "wf_maze maze h"
  shows "\<exists>y. randomizeMaze maze h r = Some y"
proof -
  from createRandomMazeRec_total[OF assms, of r] obtain a where
    "createRandomMazeRec maze h r = Some a" by blast
  moreover from createRandomMazePrim_total[OF assms, of r] obtain b where
    "createRandomMazePrim maze h r = Some b" by blast
  moreover from createRandomMazeKruskal_total[of maze h r] obtain c where
    "createRandomMazeKruskal maze h r = Some c" by blast
  ultimately show ?thesis
    by (cases a; cases b) (simp add: randomizeMaze_def del: split_paired_Ex)
qed

lemma new_MazeGenerator_total:
  assumes "wf_heap h"
  shows "\<exists>y. new_MazeGenerator c h r = Some y"
proof -
  obtain m1 h1 where c: "construct (config_rows c) (config_cols c) (config_algo c) h = (m1, h1)"
    by (cases "construct (config_rows c) (config_cols c) (config_algo c) h")
  from randomizeMaze_total[OF construct_wf_heap[OF c assms] construct_wf_maze[OF c], of r] c
  show ?thesis by (simp add: new_MazeGenerator_def)
qed

lemma solve_total:
  assumes "wf_heap h" "startCell < ncells h"
  shows "\<exists>y. solve maze startCell endCell h r = Some y"
proof -
  from solve_loop_total[OF assms(1), of "Some startCell" "[startCell]" endCell "{startCell}" r]
    assms(2)
  obtain res h1 r1 where
    "solve_loop endCell (Some startCell) [startCell] {startCell} h r = Some (res, h1, r1)"
    by auto
  then show ?thesis by (simp add: solve_def)
qed

lemma operation_wf_heap: "operation h h' \<Longrightarrow> wf_heap h \<Longrightarrow> wf_heap h'"
proof (induction rule: operation.induct)
  case (op_construct rs cs al h maze h')
  then show ?case by (rule construct_wf_heap)
next
  case (op_new c h r res maze h' r')
  obtain m1 h1 where c: "construct (config_rows c) (config_cols c) (config_algo c) h = (m1, h1)"
    by (cases "construct (config_rows c) (config_cols c) (config_algo c) h")
  with op_new have "randomizeMaze m1 h1 r = Some (res, maze, h', r')"
    by (simp add: new_MazeGenerator_def)
  from door_frame_wf_heap[OF randomizeMaze_frame[OF this] construct_wf_heap[OF c op_new(2)]]
  show ?case .
next
  case (op_randomize maze h r res maze' h' r')
  from door_frame_wf_heap[OF randomizeMaze_frame[OF op_randomize(1)] op_randomize(2)]
  show ?case .
next
  case (op_rec maze h r res h' r')
  from door_frame_wf_heap[OF generators_frame(1)[OF op_rec(1)] op_rec(2)] show ?case .
next
  case (op_prim maze h r res h' r')
  from door_frame_wf_heap[OF generators_frame(2)[OF op_prim(1)] op_prim(2)] show ?case .
next
  case (op_kruskal maze h r res maze' h' r')
  from door_frame_wf_heap[OF generators_frame(3)[OF op_kruskal(1)] op_kruskal(2)] show ?case .
next
  case (op_solve maze startCell endCell h r path maze' h' r')
  then have "h' = h"
    by (auto simp: solve_def split: option.splits dest: solve_loop_frame)
  with op_solve(2) show ?case by simp
next
  case (op_group maze h groups maze' h')
  then show ?case by (simp add: groupDoors_def)
qed

lemma reachable_wf_heap: "operation\<^sup>*\<^sup>* empty_heap h \<Longrightarrow> wf_heap h"
  by (induction rule: rtranclp_induct) (auto intro: wf_empty_heap operation_wf_heap)

section \<open>The solver finds a path\<close>

lemma canVisit_open_wall:
  assumes wf: "wf_heap h" and a: "a < ncells h"
  shows "b \<in> set (canVisit h a) \<longleftrightarrow> open_wall h a b"
proof
  from wf_heapD(1)[OF wf a] have k: "distinct (map fst (doors (cell_of h a)))"
    and reg: "\<And>d. d \<in> set (map snd (doors (cell_of h a))) \<Longrightarrow>
                d < ndoors h \<and> (cell1 (door_of h d) = a \<or> cell2 (door_of h d) = a)"
    by (auto simp: wf_cell_def)
  note cv = canVisit_eq[OF k]
  {
    assume "b \<in> set (canVisit h a)"
    with cv obtain d where d: "d \<in> set (map snd (doors (cell_of h a)))"
      "\<not> closed (door_of h d)" "b = other_side h a d" by auto
    from reg[OF d(1)] d(2,3) show "open_wall h a b"
      unfolding open_wall_def other_side_def by (intro bexI[of _ d]) auto
  next
    assume "open_wall h a b"
    then obtain d where d: "d < ndoors h" "\<not> closed (door_of h d)"
      "cell1 (door_of h d) = a \<and> cell2 (door_of h d) = b
       \<or> cell1 (door_of h d) = b \<and> cell2 (door_of h d) = a"
      unfolding open_wall_def by auto
    from wf_heapD(2)[OF wf d(1)] have w: "cell1 (door_of h d) \<noteq> cell2 (door_of h d)"
      "d \<in> set (map snd (doors (cell_of h (cell1 (door_of h d)))))"
      "d \<in> set (map snd (doors (cell_of h (cell2 (door_of h d)))))"
      by (simp_all add: wf_door_def)
    from d(3) w have "d \<in> set (map snd (doors (cell_of h a)))" "other_side h a d = b"
      by (auto simp: other_side_def)
    with d(2) show "b \<in> set (canVisit h a)" unfolding cv by force
  }
qed

lemma closed_set_reach:
  assumes "(open_wall h)\<^sup>*\<^sup>* s e" "s \<in> v" "\<forall>a\<in>v. \<forall>b. open_wall h a b \<longrightarrow> b \<in> v"
  shows "e \<in> v"
  using assms by (induction rule: rtranclp_induct) auto

lemma dfs_inv_push:
  assumes inv: "dfs_inv h s e path v" and wf: "wf_heap h"
    and ne: "last path \<noteq> e"
    and n: "n \<in> set (canVisit h (last path))" "n \<notin> v"
  shows "dfs_inv h s e (path @ [n]) (insert n v)"
proof -
  from inv have p: "path \<noteq> []" "hd path = s" "distinct path" "set path \<subseteq> v"
    "successively (open_wall h) path" "\<forall>c\<in>v. c < ncells h" "e \<in> v \<longrightarrow> last path = e"
    "\<forall>a\<in>v - set path. \<forall>b. open_wall h a b \<longrightarrow> b \<in> v"
    unfolding dfs_inv_def by simp_all
  from p(1,4) have lv: "last path \<in> v" by auto
  with p(6) have ll: "last path < ncells h" by simp
  from canVisit_open_wall[OF wf ll] n(1) have ow: "open_wall h (last path) n" by simp
  from canVisit_in[OF wf ll n(1)] have nl: "n < ncells h" .
  from p(1,5) ow have "successively (open_wall h) (path @ [n])"
    by (simp add: successively_append_iff)
  moreover from p(3,4) n(2) have "distinct (path @ [n])" by auto
  moreover from p(7) ne have "e \<in> insert n v \<longrightarrow> last (path @ [n]) = e" by auto
  moreover from p(8) have "\<forall>a\<in>insert n v - set (path @ [n]). \<forall>b. open_wall h a b \<longrightarrow> b \<in> insert n v"
    by auto
  ultimately show ?thesis using p(1,2,4,6) nl unfolding dfs_inv_def by auto
qed

lemma dfs_inv_pop:
  assumes inv: "dfs_inv h s e path v" and wf: "wf_heap h"
    and reach: "(open_wall h)\<^sup>*\<^sup>* s e"
    and ne: "last path \<noteq> e"
    and stuck: "filter (\<lambda>n. n \<notin> v) (canVisit h (last path)) = []"
  shows "butlast path \<noteq> [] \<and> dfs_inv h s e (butlast path) v"
proof -
  from inv have p: "path \<noteq> []" "hd path = s" "distinct path" "set path \<subseteq> v"
    "successively (open_wall h) path" "\<forall>c\<in>v. c < ncells h" "e \<in> v \<longrightarrow> last path = e"
    "\<forall>a\<in>v - set path. \<forall>b. open_wall h a b \<longrightarrow> b \<in> v"
    unfolding dfs_inv_def by simp_all
  from p(1,4) have lv: "last path \<in> v" by auto
  with p(6) have ll: "last path < ncells h" by simp
  from p(7) ne have ev: "e \<notin> v" by blast
  from stuck canVisit_open_wall[OF wf ll] have stk: "\<forall>b. open_wall h (last path) b \<longrightarrow> b \<in> v"
    by (auto simp: filter_empty_conv)
  from p(1) have split: "path = butlast path @ [last path]" by simp
  have nonempty: "butlast path \<noteq> []"
  proof
    assume "butlast path = []"
    with split have path: "path = [last path]" by simp
    with p(2) have s: "last path = s" by (metis list.sel(1))
    from path have "set path = {last path}" by (metis list.set(1) list.simps(15))
    have "\<forall>a\<in>v. \<forall>b. open_wall h a b \<longrightarrow> b \<in> v"
    proof (intro ballI allI impI)
      fix a b assume a: "a \<in> v" and ow: "open_wall h a b"
      show "b \<in> v"
      proof (cases "a = last path")
        case True
        with stk ow show ?thesis by simp
      next
        case False
        with a \<open>set path = {last path}\<close> have "a \<in> v - set path" by simp
        with p(8) ow show ?thesis by blast
      qed
    qed
    from closed_set_reach[OF reach _ this] lv s ev show False by simp
  qed
  from split p(3) have d: "distinct (butlast path)" "last path \<notin> set (butlast path)"
    by (metis distinct_append distinct_butlast, metis distinct_butlast not_distinct_conv_prefix
        append.right_neutral disjoint_insert(1) distinct_append list.simps(15))
  from split p(5) have sc: "successively (open_wall h) (butlast path)"
    by (metis successively_append_iff)
  from nonempty p(2) split have hd: "hd (butlast path) = s" by (metis hd_append2)
  from p(4) have sub: "set (butlast path) \<subseteq> v" by (auto dest: in_set_butlastD)
  have fin: "\<forall>a\<in>v - set (butlast path). \<forall>b. open_wall h a b \<longrightarrow> b \<in> v"
  proof (intro ballI allI impI)
    fix a b assume a: "a \<in> v - set (butlast path)" and ow: "open_wall h a b"
    show "b \<in> v"
    proof (cases "a = last path")
      case True
      with stk ow show ?thesis by simp
    next
      case False
      with a split have "a \<in> v - set path"
        by (metis DiffD1 DiffD2 DiffI Un_iff empty_iff insert_iff list.simps(15) set_append
            list.set(1))
      with p(8) ow show ?thesis by blast
    qed
  qed
  from nonempty d(1) sc hd sub fin p(6) ev show ?thesis unfolding dfs_inv_def by simp
qed

lemma solve_loop_correct:
  "solve_loop e current path v h r = Some y \<Longrightarrow> wf_heap h \<Longrightarrow> (open_wall h)\<^sup>*\<^sup>* s e
     \<Longrightarrow> dfs_inv h s e path v \<Longrightarrow> current = Some (last path)
     \<Longrightarrow> \<exists>p. fst y = Inr p \<and> p \<noteq> [] \<and> hd p = s \<and> last p = e \<and> distinct p
             \<and> successively (open_wall h) p"
proof (induction arbitrary: s rule: solve_loop.raw_induct[rotated 1, consumes 1])
  case (1 solve_loop e current path v h r y)
  note IH = 1(1) and eq = 1(2) and wf = 1(3) and reach = 1(4) and inv = 1(5) and cur = 1(6)
  show ?case
  proof (cases "last path = e")
    case True
    with eq cur have "y = (Inr path, h, r)" by simp
    with inv True show ?thesis unfolding dfs_inv_def by simp
  next
    case ne: False
    let ?u = "filter (\<lambda>n. n \<notin> v) (canVisit h (last path))"
    show ?thesis
    proof (cases "?u = []")
      case False
      obtain i r' where ri: "random_index (length ?u) r = (i, r')"
        by (cases "random_index (length ?u) r")
      with False random_index_less[of "length ?u" r] have i: "i < length ?u" by simp
      let ?n = "?u ! i"
      from i have "?n \<in> set ?u" by (rule nth_mem)
      then have n: "?n \<in> set (canVisit h (last path))" "?n \<notin> v" by simp_all
      from eq cur ne False ri
      have "solve_loop e (Some ?n) (path @ [?n]) (insert ?n v) h r' = Some y"
        by (simp add: Let_def)
      from IH[OF this wf reach dfs_inv_push[OF inv wf ne n]] show ?thesis by simp
    next
      case True
      from dfs_inv_pop[OF inv wf reach ne True]
      have b: "butlast path \<noteq> []" "dfs_inv h s e (butlast path) v" by simp_all
      then have "path \<noteq> []" by auto
      with eq cur ne True b(1)
      have "solve_loop e (Some (last (butlast path))) (butlast path) v h r = Some y"
        by (simp add: Let_def)
      from IH[OF this wf reach b(2)] show ?thesis by simp
    qed
  qed
qed

lemma solve_self: "solve maze c c h r = Some (Inr [c], maze, h, r)"
  unfolding solve_def by (subst solve_loop.simps) simp

lemma dfs_inv_initial: "s < ncells h \<Longrightarrow> dfs_inv h s e [s] {s}"
  by (simp add: dfs_inv_def)

lemma solve_correct:
  assumes wf: "wf_heap h" and s: "startCell < ncells h"
    and reach: "(open_wall h)\<^sup>*\<^sup>* startCell endCell"
  shows "\<exists>path r'. solve maze startCell endCell h r = Some (Inr path, maze, h, r')
           \<and> path \<noteq> [] \<and> hd path = startCell \<and> last path = endCell \<and> distinct path
           \<and> successively (open_wall h) path"
proof -
  from solve_loop_total[OF wf, of "Some startCell" "[startCell]" endCell "{startCell}" r] s
  obtain res h1 r1 where
    l: "solve_loop endCell (Some startCell) [startCell] {startCell} h r = Some (res, h1, r1)"
    by auto
  from solve_loop_frame[OF l] have h1: "h1 = h" .
  from solve_loop_correct[OF l wf reach dfs_inv_initial[OF s]] obtain p where
    "res = Inr p" "p \<noteq> []" "hd p = startCell" "last p = endCell" "distinct p"
    "successively (open_wall h) p" by auto
  with l h1 show ?thesis by (simp add: solve_def)
qed

section \<open>The claims\<close>

text \<open>
  C1. After generation exactly \<open>rows * cols - 1\<close> walls are open and the open walls form
  a spanning tree, for each of the three algorithms. The recursive backtracker does not
  keep this: on the 2 by 2 grid, started in cell (0, 0) and walking right, down, left, it
  finds its start cell unvisited, walks up into it and opens the fourth wall. All four
  walls of the grid are then open, where the claim has three, and the four cells lie on a
  cycle.
\<close>

theorem recursive_backtracker_opens_cycle:
  "map_option (\<lambda>(res, maze, h, r). (res, rows maze * cols maze - 1, open_doors h, ndoors h))
     (new_MazeGenerator (Options (Some 2) (Some 2) (Some ''recursive'')) empty_heap
        (choices [0, 0, 0, 1, 0, 0]))
   = Some (Inr (), 3, [0, 1, 2, 3], 4)"
  by code_simp

text \<open>
  C3. The backtracker marks its start cell visited before the loop, so the start cell is
  never treated as an unvisited neighbour. The code does not: on the 1 by 2 grid, with the
  random source 0, 0, 5, 6, 7, 8, the run draws 0 and 0 for the start cell (0, 0), draws 5
  to step to cell (0, 1), and there draws 6 as well, to step back into the start cell as
  an unvisited neighbour. The source is left at 7; a run that had marked the start cell
  would find no unvisited neighbour in cell (0, 1), make no fourth draw and leave the
  source at 6.
\<close>

theorem recursive_backtracker_revisits_start:
  "map_option (\<lambda>(res, h, r). (res, open_doors h, r 0, r 1))
     (createRandomMazeRec (fst (construct 1 2 ''recursive'' empty_heap))
        (snd (construct 1 2 ''recursive'' empty_heap)) (choices [0, 0, 5, 6, 7, 8]))
   = Some (Inr (), [0], 7, 8)"
  by code_simp

text \<open>
  C4. \<open>solve\<close> raises PathNotFound when the end cell cannot be reached. Two grids of one
  cell each are built in the same store; solving from the cell of the first (reference 0)
  to the cell of the second (reference 1) pops the path to the empty array, makes
  \<open>current\<close> undefined and fails with a TypeError in the next iteration: the test of
  \<open>path.length === 0\<close> comes before the pop and is never true.
\<close>

theorem solve_unreachable_is_TypeError:
  "map_option fst
     (solve (fst (construct 1 1 ''recursive'' empty_heap)) 0 1
        (snd (construct 1 1 ''recursive'' (snd (construct 1 1 ''recursive'' empty_heap))))
        (choices []))
   = Some (Inl TypeError)"
  by code_simp

text \<open>
  C6, as stated, fails for nodes that the structure has not seen: \<open>root\<close> registers
  them. On the empty structure \<open>join(0, 1)\<close> takes the count from 0 to 1, although 0 and
  1 were not joined before, and \<open>join(0, 0)\<close> takes it from 0 to 1 as well.
\<close>

theorem join_unregistered_counterexample:
  "rootsNbr ([] :: nat UF) = Some (0, [])
   \<and> joined [] (Some (0::nat)) (Some 1) = Some (False, [(Some 0, Some 0), (Some 1, Some 1)])
   \<and> join [] (Some (0::nat)) (Some 1) = Some [(Some 0, Some 1), (Some 1, Some 1)]
   \<and> rootsNbr [(Some (0::nat), Some 1), (Some 1, Some 1)]
       = Some (1, [(Some 0, Some 1), (Some 1, Some 1)])
   \<and> join [] (Some (0::nat)) (Some 0) = Some [(Some 0, Some 0)]
   \<and> rootsNbr [(Some (0::nat), Some 0)] = Some (1, [(Some 0, Some 0)])"
  by code_simp

text \<open>
  C6, amended to nodes that are registered: after any sequence of operations,
  \<open>join(a, b)\<close> returns and \<open>joined(a, b)\<close> is true afterwards; when \<open>a\<close> and \<open>b\<close>
  are both registered, the count of \<open>rootsNbr\<close> after the join is one less than before
  if \<open>joined(a, b)\<close> was false before, and the same if it was true.
\<close>

theorem join_then_joined_and_count:
  assumes "uf_reachable m"
  shows "\<exists>m'. join m a b = Some m'
           \<and> (\<exists>mj. joined m' a b = Some (True, mj))
           \<and> (Map_has m a \<and> Map_has m b \<longrightarrow>
                (\<exists>n0 m0 d md n1 m1. rootsNbr m = Some (n0, m0) \<and> joined m a b = Some (d, md)
                   \<and> rootsNbr m' = Some (n1, m1)
                   \<and> (if d then n1 = n0 else Suc n1 = n0)))"
proof -
  from assms have inv: "uf_inv m" by (rule uf_reachable_inv)
  from join_spec[OF inv, of a b] obtain m' where
    J: "join m a b = Some m' \<and> uf_inv m'
           \<and> (\<exists>r. rep m' a r \<and> rep m' b r)
           \<and> (a \<in> fst ` set m \<and> b \<in> fst ` set m
                \<longrightarrow> (\<forall>ra rb. rep m a ra \<longrightarrow> rep m b rb
                      \<longrightarrow> roots m' = (if ra = rb then roots m else roots m - {ra}) \<and> ra \<in> roots m))"
    ..
  then have m': "join m a b = Some m'" "uf_inv m'" "\<exists>r. rep m' a r \<and> rep m' b r"
        "a \<in> fst ` set m \<and> b \<in> fst ` set m
           \<longrightarrow> (\<forall>ra rb. rep m a ra \<longrightarrow> rep m b rb
                 \<longrightarrow> roots m' = (if ra = rb then roots m else roots m - {ra}) \<and> ra \<in> roots m)"
    by simp_all
  from m'(3) obtain r where r: "rep m' a r" "rep m' b r" by blast
  then have k': "a \<in> fst ` set m'" "b \<in> fst ` set m'" by (auto dest: rep_key)
  from joined_spec[OF m'(2), of a b] obtain d mj where
    D: "joined m' a b = Some (d, mj)"
       "a \<in> fst ` set m' \<and> b \<in> fst ` set m'
          \<longrightarrow> uf_equiv m' mj \<and> (\<forall>ra rb. rep m' a ra \<longrightarrow> rep m' b rb \<longrightarrow> d = (ra = rb))"
    by blast
  with k' r have "d" by blast
  with D have mj: "joined m' a b = Some (True, mj)" by simp
  have cnt: "\<exists>n0 m0 d md n1 m1. rootsNbr m = Some (n0, m0) \<and> joined m a b = Some (d, md)
                   \<and> rootsNbr m' = Some (n1, m1)
                   \<and> (if d then n1 = n0 else Suc n1 = n0)"
    if reg: "Map_has m a" "Map_has m b"
  proof -
    from reg have keys: "a \<in> fst ` set m" "b \<in> fst ` set m" by (simp_all add: Map_has_iff)
    with inv obtain ra rb where rr: "rep m a ra" "rep m b rb" unfolding uf_inv_def by blast
    from m'(4) keys rr have roots': "roots m' = (if ra = rb then roots m else roots m - {ra})"
      and ra: "ra \<in> roots m" by blast+
    from rootsNbr_spec[OF inv] obtain m0 where m0: "rootsNbr m = Some (card (roots m), m0)"
      by blast
    from rootsNbr_spec[OF m'(2)] obtain m1 where m1: "rootsNbr m' = Some (card (roots m'), m1)"
      by blast
    from joined_spec[OF inv, of a b] keys rr obtain md where
      md: "joined m a b = Some (ra = rb, md)" by blast
    have "if ra = rb then card (roots m') = card (roots m)
          else Suc (card (roots m')) = card (roots m)"
      using roots' card.remove[OF finite_roots ra] by auto
    with m0 m1 md show ?thesis by blast
  qed
  from m'(1) mj cnt show ?thesis by blast
qed

text \<open>
  C6, a witness: the structure after \<open>join(0, 1)\<close> and \<open>root(2)\<close>, joining 0 and 2.
\<close>

theorem join_then_joined_and_count_witness:
  "uf_reachable [(Some (0::nat), Some 1), (Some 1, Some 1), (Some 2, Some 2)]
   \<and> Map_has [(Some (0::nat), Some 1), (Some 1, Some 1), (Some 2, Some 2)] (Some 0)
   \<and> Map_has [(Some (0::nat), Some 1), (Some 1, Some 1), (Some 2, Some 2)] (Some 2)
   \<and> (\<exists>m'. join [(Some (0::nat), Some 1), (Some 1, Some 1), (Some 2, Some 2)] (Some 0) (Some 2)
               = Some m'
           \<and> (\<exists>mj. joined m' (Some 0) (Some 2) = Some (True, mj))
           \<and> (\<exists>n0 m0 d md n1 m1.
                  rootsNbr [(Some (0::nat), Some 1), (Some 1, Some 1), (Some 2, Some 2)]
                    = Some (n0, m0)
                \<and> joined [(Some (0::nat), Some 1), (Some 1, Some 1), (Some 2, Some 2)]
                      (Some 0) (Some 2) = Some (d, md)
                \<and> rootsNbr m' = Some (n1, m1)
                \<and> (if d then n1 = n0 else Suc n1 = n0)))"
proof -
  let ?m = "[(Some (0::nat), Some 1), (Some 1, Some 1), (Some 2, Some 2)]"
  have 1: "join ([] :: nat UF) (Some 0) (Some 1) = Some [(Some 0, Some 1), (Some 1, Some 1)]"
    by code_simp
  have 2: "root [(Some (0::nat), Some 1), (Some 1, Some 1)] (Some 2) = Some (Some 2, ?m)"
    by code_simp
  have r: "uf_reachable ?m"
    by (rule reach_root[OF reach_join[OF reach_new 1] 2])
  have h: "Map_has ?m (Some 0)" "Map_has ?m (Some 2)"
    by code_simp+
  from join_then_joined_and_count[OF r, of "Some 0" "Some 2"] r h show ?thesis
    by blast
qed

text \<open>
  C8, as stated, fails for a grid generated by Kruskal's algorithm, which shuffles the
  doors array in place: on the 1 by 3 grid the shuffle swaps the two doors, and the group
  of \<open>|\<close> lists door 1 before door 0, against the construction order.
\<close>

theorem groupDoors_kruskal_counterexample:
  "map_option (\<lambda>(res, maze, h, r). (res, mdoors maze, fst (groupDoors maze h)))
     (new_MazeGenerator (Options (Some 1) (Some 3) (Some ''kruskal'')) empty_heap (choices []))
   = Some (Inr (), [Some 1, Some 0], Inr [(''|'', [1, 0]), (''-'', [])])"
  by code_simp

text \<open>
  C8, amended. For every generated maze \<open>groupDoors\<close> returns exactly the two groups \<open>|\<close>
  and \<open>-\<close>. The doors array holds every door of the grid exactly once; the group \<open>|\<close> is
  the doors of the array whose direction is \<open>|\<close> and the group \<open>-\<close> the doors whose direction is
  \<open>-\<close>, each in the order of the array, which is the construction order unless the algorithm is
  Kruskal's. The direction of a door is \<open>|\<close> exactly when its two cells are in the same row and
  differ in column, and \<open>-\<close> exactly when they are in the same column and differ in row, so that
  every door is in exactly one group. The call changes neither the object nor the store.
\<close>

theorem groupDoors_by_direction:
  assumes "new_MazeGenerator c h0 r = Some (Inr (), maze, h, r')"
  shows "\<exists>ds. mdoors maze = map Some ds
       \<and> distinct ds
       \<and> set ds = {ndoors h0..<ndoors h0
            + (config_rows c * (config_cols c - 1) + config_cols c * (config_rows c - 1))}
       \<and> (algo maze \<noteq> ''kruskal'' \<longrightarrow> ds = [ndoors h0..<ndoors h0
            + (config_rows c * (config_cols c - 1) + config_cols c * (config_rows c - 1))])
       \<and> groupDoors maze h =
           (Inr [(''|'', filter (\<lambda>d. direction h d = ''|'') ds),
                 (''-'', filter (\<lambda>d. direction h d = ''-'') ds)], maze, h)
       \<and> (\<forall>d\<in>set ds.
            (direction h d = ''|'' \<longleftrightarrow>
               row (cell_of h (cell1 (door_of h d))) = row (cell_of h (cell2 (door_of h d)))
             \<and> col (cell_of h (cell1 (door_of h d))) \<noteq> col (cell_of h (cell2 (door_of h d))))
          \<and> (direction h d = ''-'' \<longleftrightarrow>
               col (cell_of h (cell1 (door_of h d))) = col (cell_of h (cell2 (door_of h d)))
             \<and> row (cell_of h (cell1 (door_of h d))) \<noteq> row (cell_of h (cell2 (door_of h d)))))"
proof -
  let ?N = "config_rows c * (config_cols c - 1) + config_cols c * (config_rows c - 1)"
  obtain m1 h1 where c: "construct (config_rows c) (config_cols c) (config_algo c) h0 = (m1, h1)"
    by (cases "construct (config_rows c) (config_cols c) (config_algo c) h0")
  with assms have rm: "randomizeMaze m1 h1 r = Some (Inr (), maze, h, r')"
    by (simp add: new_MazeGenerator_def)
  note cd = construct_doors[OF c]
  note ro = randomizeMaze_object[OF rm]
  note fr = randomizeMaze_frame[OF rm]
  from cd have m1: "mdoors m1 = map Some [ndoors h0..<ndoors h0 + ?N]"
    and n1: "ndoors h1 = ndoors h0 + ?N" by simp_all
  from ro m1 have "set (mdoors maze) = set (map Some [ndoors h0..<ndoors h0 + ?N])"
    "distinct (mdoors maze) = distinct (map Some [ndoors h0..<ndoors h0 + ?N])"
    "length (mdoors maze) = length (map Some [ndoors h0..<ndoors h0 + ?N])"
    by simp_all
  from map_Some_perm[OF this] obtain ds where
    ds: "mdoors maze = map Some ds" "set ds = {ndoors h0..<ndoors h0 + ?N}" "distinct ds"
    by auto
  have same: "ds = [ndoors h0..<ndoors h0 + ?N]" if "algo maze \<noteq> ''kruskal''"
  proof -
    from that ro have "maze = m1" by auto
    with ds(1) m1 have "map Some ds = map Some [ndoors h0..<ndoors h0 + ?N]" by simp
    then show ?thesis by (simp add: inj_map_eq_map)
  qed
  have g: "groupDoors maze h =
           (Inr [(''|'', filter (\<lambda>d. direction h d = ''|'') ds),
                 (''-'', filter (\<lambda>d. direction h d = ''-'') ds)], maze, h)"
    using group_fold[of h ds "[]" "[]"] by (simp add: groupDoors_def ds(1))
  have adj: "adjacent (cell_of h (cell1 (door_of h d))) (cell_of h (cell2 (door_of h d)))"
    if "d \<in> set ds" for d
  proof -
    from that ds(2) n1 have "ndoors h0 \<le> d \<and> d < ndoors h1" by simp
    with cd have "adjacent (cell_of h1 (cell1 (door_of h1 d))) (cell_of h1 (cell2 (door_of h1 d)))"
      by blast
    from door_frame_adjacent[OF fr this] show ?thesis .
  qed
  from ds same g adjacent_direction[OF adj] show ?thesis by blast
qed

text \<open>
  C8, a witness: the 1 by 3 grid that Kruskal's algorithm generates.
\<close>

theorem groupDoors_by_direction_witness:
  "\<exists>maze h ds. mdoors maze = map Some ds \<and> set ds = {0..<2}
     \<and> fst (groupDoors maze h) = Inr [(''|'', [1, 0]), (''-'', [])]
     \<and> filter (\<lambda>d. direction h d = ''|'') ds = [1, 0]"
proof -
  let ?c = "Options (Some 1) (Some 3) (Some ''kruskal'')"
  have e: "map_option (\<lambda>(res, maze, h, r). (res, fst (groupDoors maze h)))
          (new_MazeGenerator ?c empty_heap (choices []))
        = Some (Inr (), Inr [(''|'', [1, 0]), (''-'', [])])"
    by code_simp
  then obtain maze h r' where
    s: "new_MazeGenerator ?c empty_heap (choices []) = Some (Inr (), maze, h, r')"
    and g: "fst (groupDoors maze h) = Inr [(''|'', [1, 0]), (''-'', [])]"
    by (cases "new_MazeGenerator ?c empty_heap (choices [])") auto
  have n: "ndoors empty_heap = 0"
    "config_rows ?c * (config_cols ?c - 1) + config_cols ?c * (config_rows ?c - 1) = 2"
    by code_simp+
  from groupDoors_by_direction[OF s] obtain ds where
    d: "mdoors maze = map Some ds" "set ds = {0..<0 + 2}"
       "groupDoors maze h =
           (Inr [(''|'', filter (\<lambda>d. direction h d = ''|'') ds),
                 (''-'', filter (\<lambda>d. direction h d = ''-'') ds)], maze, h)"
    unfolding n by blast
  from d(3) g have "filter (\<lambda>d. direction h d = ''|'') ds = [1, 0]" by simp
  moreover from d(2) have "set ds = {0..<2}" by (simp add: numeral_2_eq_2)
  ultimately show ?thesis using d(1) g by blast
qed

text \<open>
  C5. After the constructor has run with positive \<open>rows\<close> and \<open>cols\<close>, on any store,
  the array \<open>doors\<close> holds exactly \<open>rows * (cols - 1) + cols * (rows - 1)\<close> doors, all of them
  new and distinct; the two end points of every one of them are adjacent cells (their positions
  differ by exactly 1 in exactly one coordinate), the door is closed, and each of the two end
  points holds the door under one of its direction keys.
\<close>

theorem constructor_invariants:
  assumes "0 < rs" and "0 < cs" and "construct rs cs al h0 = (maze, h)"
  shows "mdoors maze = map Some [ndoors h0..<ndoors h0 + (rs * (cs - 1) + cs * (rs - 1))]
       \<and> ndoors h = ndoors h0 + (rs * (cs - 1) + cs * (rs - 1))
       \<and> (\<forall>d. ndoors h0 \<le> d \<and> d < ndoors h \<longrightarrow>
              adjacent (cell_of h (cell1 (door_of h d))) (cell_of h (cell2 (door_of h d)))
            \<and> closed (door_of h d)
            \<and> (\<exists>key. reg h (cell1 (door_of h d)) key = Some d)
            \<and> (\<exists>key. reg h (cell2 (door_of h d)) key = Some d))"
  using construct_doors[OF assms(3)] .

text \<open>
  C5, a witness: the 2 by 2 grid in the empty store and its last door.
\<close>

theorem constructor_invariants_witness:
  "(0::nat) < 2 \<and> construct 2 2 ''prim'' empty_heap
        = (fst (construct 2 2 ''prim'' empty_heap), snd (construct 2 2 ''prim'' empty_heap))
   \<and> mdoors (fst (construct 2 2 ''prim'' empty_heap)) = [Some 0, Some 1, Some 2, Some 3]
   \<and> ndoors empty_heap \<le> 3 \<and> 3 < ndoors (snd (construct 2 2 ''prim'' empty_heap))
   \<and> adjacent
        (cell_of (snd (construct 2 2 ''prim'' empty_heap))
           (cell1 (door_of (snd (construct 2 2 ''prim'' empty_heap)) 3)))
        (cell_of (snd (construct 2 2 ''prim'' empty_heap))
           (cell2 (door_of (snd (construct 2 2 ''prim'' empty_heap)) 3)))
   \<and> closed (door_of (snd (construct 2 2 ''prim'' empty_heap)) 3)
   \<and> (\<exists>key. reg (snd (construct 2 2 ''prim'' empty_heap))
               (cell1 (door_of (snd (construct 2 2 ''prim'' empty_heap)) 3)) key = Some 3)
   \<and> (\<exists>key. reg (snd (construct 2 2 ''prim'' empty_heap))
               (cell2 (door_of (snd (construct 2 2 ''prim'' empty_heap)) 3)) key = Some 3)"
proof -
  have p: "(0::nat) < 2" by simp
  have c: "construct 2 2 ''prim'' empty_heap
        = (fst (construct 2 2 ''prim'' empty_heap), snd (construct 2 2 ''prim'' empty_heap))"
    by simp
  have n: "ndoors empty_heap \<le> 3" "3 < ndoors (snd (construct 2 2 ''prim'' empty_heap))"
    by code_simp+
  have e: "map Some [ndoors empty_heap..<ndoors empty_heap + (2 * (2 - 1) + 2 * (2 - 1))]
             = [Some 0, Some 1, Some 2, Some (3::nat)]"
    by code_simp
  from constructor_invariants[OF p p c] n e p c show ?thesis
    by (simp only:)
qed

text \<open>
  C9. The solver performs no mutation: when \<open>solve(start, end)\<close> returns or throws, the
  store (every wall's closed flag, every cell's direction map) and the generator object
  (its cells array and doors array) are what they were before the call.
\<close>

theorem solve_no_mutation:
  "solve maze startCell endCell h r = Some (res, maze', h', r') \<Longrightarrow> maze' = maze \<and> h' = h"
  by (auto simp: solve_def split: option.splits dest: solve_loop_frame)

text \<open>
  C9, a witness: solving from cell (0, 0) to cell (1, 1) in the 2 by 2 grid of Prim.
\<close>

theorem solve_no_mutation_witness:
  "\<exists>res r'. solve maze_prim_2x2 0 3 heap_prim_2x2 (choices [])
             = Some (res, maze_prim_2x2, heap_prim_2x2, r')"
proof -
  have "map_option (\<lambda>(res, maze, h, r). (res, maze, h))
          (solve maze_prim_2x2 0 3 heap_prim_2x2 (choices []))
        = Some (Inr [0, 1, 3], maze_prim_2x2, heap_prim_2x2)"
    by code_simp
  then obtain res m' h' r' where
    s: "solve maze_prim_2x2 0 3 heap_prim_2x2 (choices []) = Some (res, m', h', r')"
    by (cases "solve maze_prim_2x2 0 3 heap_prim_2x2 (choices [])") auto
  from solve_no_mutation[OF s] s show ?thesis by blast
qed

text \<open>
  C10. Opening is monotone: a door that is open stays open through every sequence of
  operations of the program (the constructor, the three generators, called directly or through
  \<open>randomizeMaze\<close>, \<open>solve\<close> and \<open>groupDoors\<close>, with any arguments).
\<close>

theorem open_door_never_closed:
  assumes "operation\<^sup>*\<^sup>* h h'" and "d < ndoors h" and "\<not> closed (door_of h d)"
  shows "d < ndoors h' \<and> \<not> closed (door_of h' d)"
  using operations_stay_open[OF assms(1)] assms(2,3) unfolding stays_open_def by blast

text \<open>
  C10, a witness: the recursive backtracker, run on the 2 by 2 grid that Prim's algorithm
  left, changes the store and leaves door 0 open.
\<close>

theorem open_door_never_closed_witness:
  "0 < ndoors heap_prim_2x2 \<and> \<not> closed (door_of heap_prim_2x2 0)
   \<and> (\<exists>h'. operation\<^sup>*\<^sup>* heap_prim_2x2 h' \<and> h' \<noteq> heap_prim_2x2
            \<and> 0 < ndoors h' \<and> \<not> closed (door_of h' 0))"
proof -
  have a: "0 < ndoors heap_prim_2x2" "\<not> closed (door_of heap_prim_2x2 0)"
    by code_simp+
  have "map_option (\<lambda>(res, h, r). h = heap_prim_2x2)
          (createRandomMazeRec maze_prim_2x2 heap_prim_2x2 (choices [])) = Some False"
    by code_simp
  then obtain res h' r' where
    s: "createRandomMazeRec maze_prim_2x2 heap_prim_2x2 (choices []) = Some (res, h', r')"
    and n: "h' \<noteq> heap_prim_2x2"
    by (cases "createRandomMazeRec maze_prim_2x2 heap_prim_2x2 (choices [])") auto
  from s have o: "operation\<^sup>*\<^sup>* heap_prim_2x2 h'"
    by (intro r_into_rtranclp op_rec)
  from open_door_never_closed[OF o a] a n o show ?thesis by blast
qed

text \<open>
  C7. Generation and solving always terminate. In every store that the operations of the
  program build from the empty store, the constructor with any configuration (and so each of
  the three algorithms, on the grid that the constructor has built) returns or throws, each
  generator returns or throws on every well-formed generator object, and \<open>solve\<close> returns or
  throws from every cell of the store, whatever the end cell, the random source and the state of
  the doors. The loops are partial functions whose value \<open>None\<close> is a run that never returns.
\<close>

theorem generation_and_solving_terminate:
  assumes "operation\<^sup>*\<^sup>* empty_heap h"
  shows "(\<exists>y. new_MazeGenerator c h r = Some y)
       \<and> (wf_maze maze h \<longrightarrow>
            (\<exists>y. createRandomMazeRec maze h r = Some y)
          \<and> (\<exists>y. createRandomMazePrim maze h r = Some y)
          \<and> (\<exists>y. createRandomMazeKruskal maze h r = Some y))
       \<and> (startCell < ncells h \<longrightarrow> (\<exists>y. solve maze startCell endCell h r = Some y))"
  using new_MazeGenerator_total[OF reachable_wf_heap[OF assms]]
    createRandomMazeRec_total[OF reachable_wf_heap[OF assms]]
    createRandomMazePrim_total[OF reachable_wf_heap[OF assms]]
    createRandomMazeKruskal_total
    solve_total[OF reachable_wf_heap[OF assms]]
  by blast

text \<open>
  C7, a witness: the store of the 2 by 2 grid that Prim's algorithm generates.
\<close>

theorem generation_and_solving_terminate_witness:
  "operation\<^sup>*\<^sup>* empty_heap heap_prim_2x2
   \<and> wf_maze maze_prim_2x2 heap_prim_2x2 \<and> 0 < ncells heap_prim_2x2
   \<and> (\<exists>y. new_MazeGenerator (Number 3) heap_prim_2x2 (choices [1, 2]) = Some y)
   \<and> (\<exists>y. createRandomMazeRec maze_prim_2x2 heap_prim_2x2 (choices [1, 2]) = Some y)
   \<and> (\<exists>y. createRandomMazePrim maze_prim_2x2 heap_prim_2x2 (choices [1, 2]) = Some y)
   \<and> (\<exists>y. createRandomMazeKruskal maze_prim_2x2 heap_prim_2x2 (choices [1, 2]) = Some y)
   \<and> (\<exists>y. solve maze_prim_2x2 0 3 heap_prim_2x2 (choices [1, 2]) = Some y)"
proof -
  from prim_2x2_generated obtain r' where
    "new_MazeGenerator (Options (Some 2) (Some 2) (Some ''prim'')) empty_heap (choices [])
       = Some (Inr (), maze_prim_2x2, heap_prim_2x2, r')"
    by (cases "new_MazeGenerator (Options (Some 2) (Some 2) (Some ''prim'')) empty_heap
                 (choices [])") auto
  then have o: "operation\<^sup>*\<^sup>* empty_heap heap_prim_2x2"
    by (intro r_into_rtranclp op_new)
  have w: "wf_maze maze_prim_2x2 heap_prim_2x2" by code_simp
  have n: "0 < ncells heap_prim_2x2" by code_simp
  from generation_and_solving_terminate[OF o, of "Number 3" "choices [1, 2]" maze_prim_2x2 0 3]
    o w n
  show ?thesis by blast
qed

text \<open>
  C2. In every store that the operations of the program build from the empty store, for every
  cell \<open>startCell\<close> of the store and every cell \<open>endCell\<close> that is reachable from it through open
  doors, \<open>solve\<close> returns a path: a sequence of cells that starts with \<open>startCell\<close>, ends with
  \<open>endCell\<close>, has an open door between every two successive cells (\<open>successively\<close>) and holds no
  cell twice. For every cell \<open>c\<close>, \<open>solve(c, c)\<close> returns \<open>[c]\<close>.
\<close>

theorem solve_finds_path:
  assumes "operation\<^sup>*\<^sup>* empty_heap h" and "startCell < ncells h"
    and "(open_wall h)\<^sup>*\<^sup>* startCell endCell"
  shows "(\<exists>path r'. solve maze startCell endCell h r = Some (Inr path, maze, h, r')
           \<and> path \<noteq> [] \<and> hd path = startCell \<and> last path = endCell \<and> distinct path
           \<and> successively (open_wall h) path)
       \<and> solve maze c c h r = Some (Inr [c], maze, h, r)"
  using solve_correct[OF reachable_wf_heap[OF assms(1)] assms(2,3)] solve_self by blast

text \<open>
  C2, a witness: from cell (0, 0) to cell (1, 1) in the 2 by 2 grid that Prim's algorithm
  generates, where the doors 0 and 2 lead from cell 0 over cell 1 to cell 3.
\<close>

theorem solve_finds_path_witness:
  "operation\<^sup>*\<^sup>* empty_heap heap_prim_2x2 \<and> 0 < ncells heap_prim_2x2
   \<and> (open_wall heap_prim_2x2)\<^sup>*\<^sup>* 0 3
   \<and> (\<exists>path r'. solve maze_prim_2x2 0 3 heap_prim_2x2 (choices [])
                    = Some (Inr path, maze_prim_2x2, heap_prim_2x2, r')
          \<and> hd path = 0 \<and> last path = 3 \<and> distinct path
          \<and> successively (open_wall heap_prim_2x2) path)"
proof -
  from prim_2x2_generated obtain r' where
    "new_MazeGenerator (Options (Some 2) (Some 2) (Some ''prim'')) empty_heap (choices [])
       = Some (Inr (), maze_prim_2x2, heap_prim_2x2, r')"
    by (cases "new_MazeGenerator (Options (Some 2) (Some 2) (Some ''prim'')) empty_heap
                 (choices [])") auto
  then have o: "operation\<^sup>*\<^sup>* empty_heap heap_prim_2x2"
    by (intro r_into_rtranclp op_new)
  have n: "0 < ncells heap_prim_2x2" by code_simp
  have "open_wall heap_prim_2x2 0 1" "open_wall heap_prim_2x2 1 3" by code_simp+
  then have w: "(open_wall heap_prim_2x2)\<^sup>*\<^sup>* 0 3" by (meson rtranclp.simps)
  from solve_finds_path[OF o n w, of maze_prim_2x2 "choices []"] o n w
  show ?thesis by blast
qed

end
